theory Spec2Isabelle
  imports Complex_Main
begin

section \<open>Data model of the global escalation engine (ai.js, createAI)\<close>

text \<open>
  Times are JavaScript numbers holding epoch milliseconds; they are modelled as \<open>int\<close>
  (exact below \<open>2^53\<close>). A nullable time is an \<open>int option\<close>. The source tests such
  fields with JavaScript truthiness (\<open>!x\<close>, \<open>x || y\<close>), under which both \<open>null\<close> and
  the number \<open>0\<close> count as absent; \<open>truthy\<close> and \<open>orElse\<close> write that out.
  Sensor values are modelled as \<open>real\<close>; rounding of IEEE doubles is not modelled.
\<close>

definition truthy :: "int option \<Rightarrow> bool" where
  "truthy x = (case x of None \<Rightarrow> False | Some n \<Rightarrow> n \<noteq> 0)"

definition orElse :: "int option \<Rightarrow> int \<Rightarrow> int" where
  "orElse x y = (case x of None \<Rightarrow> y | Some n \<Rightarrow> if n = 0 then y else n)"

text \<open>The event state stored in the map \<open>EVENTS\<close>, as \<open>getOrInitEvent\<close> creates it.\<close>

record event_state =
  firstSeenMs :: "int option"
  lastSeenMs :: "int option"
  lastFiredStage :: int
  lastToastMs :: "int option"
  lastModalMs :: "int option"
  lastCriticalMs :: "int option"
  lastAckMs :: "int option"

type_synonym events = "string \<rightharpoonup> event_state"

datatype metric = Temperature | Humidity | Pressure | Light

fun key :: "metric \<Rightarrow> string" where
  "key Temperature = ''Temperature''"
| "key Humidity = ''Humidity''"
| "key Pressure = ''Pressure''"
| "key Light = ''Light''"

text \<open>
  A reading row. \<open>clamped r k\<close> is \<open>clampNum(r[k])\<close>: the value when it is a finite number,
  \<open>None\<close> otherwise. \<open>timestamp r\<close> is \<open>tsToMs(r.timestamp)\<close>: the conversion of Firestore
  timestamps and date strings is outside the model, the row carries its result.
\<close>

record row =
  clamped :: "metric \<Rightarrow> real option"
  timestamp :: "int option"

record point =
  p_ms :: int
  p_v :: real

record delta =
  delta_d :: real
  fromMs :: int
  toMs :: int
  first_v :: real
  last_v :: real

record thresholds =
  spike :: real
  slow5m :: real
  slow10m :: real

record device =
  deviceId :: string
  deviceName :: string
  rows :: "row list"
  lastDataMs :: "int option"

text \<open>
  The argument of \<open>evaluateGlobal\<close> after its defaults are applied. \<open>navigatorJa\<close> says
  whether \<open>navigator.language\<close> starts with \<open>ja\<close>; \<open>ackEventKey\<close> is \<open>None\<close> for \<open>null\<close>.
\<close>

record input =
  devices :: "device list"
  nowMs :: int
  langMode :: string
  navigatorJa :: bool
  warnMs :: int
  alertMs :: int
  repeatWindowMs :: int
  persistWindowMs :: int
  modalSnoozeMs :: int
  ackEventKey :: "string option"

text \<open>
  The message catalog \<open>TEXT[L]\<close> is kept symbolic: a message is the catalog entry with the
  language and the parameters it is rendered from. \<open>TOAST_SPIKE\<close> stands for the four
  \<open>TOAST_*_SPIKE\<close> entries as \<open>makeSpikeText\<close> selects them, with the delta and the window
  that \<open>formatSpikeDelta\<close> and \<open>formatWin\<close> print. \<open>MODAL_REPEAT\<close> is used by the older copy
  of the file only.
\<close>

datatype message =
    OFFLINE_WARN string string int
  | OFFLINE_ALERT string string int int
  | TOAST_SPIKE string metric string real int int
  | MODAL_PERSIST string string metric int
  | MODAL_REPEAT string string metric

record notification =
  level :: string
  "text" :: message
  eventKey :: string

record candidate = notification +
  stage :: int
  candDeviceName :: string
  metricName :: string
  seenSinceMs :: "int option"

record result =
  toast :: "notification option"
  modal :: "notification option"
  lang :: string

section \<open>Helpers (time and math)\<close>

definition detectLang :: "string \<Rightarrow> bool \<Rightarrow> string" where
  "detectLang lm ja = (if lm = ''en'' \<or> lm = ''jp'' then lm else if ja then ''jp'' else ''en'')"

definition mean :: "real list \<Rightarrow> real option" where
  "mean arr = (if arr = [] then None else Some (foldl (+) 0 arr / real (length arr)))"

definition std :: "real list \<Rightarrow> real" where
  "std arr =
     (if length arr < 2 then 0
      else let m = the (mean arr);
               v = the (mean (map (\<lambda>x. (x - m) * (x - m)) arr))
           in sqrt v)"

fun series :: "row list \<Rightarrow> metric \<Rightarrow> point list" where
  "series [] k = []"
| "series (r # rs) k =
     (case clamped r k of
        None \<Rightarrow> series rs k
      | Some v \<Rightarrow>
          (if truthy (timestamp r) then \<lparr>p_ms = the (timestamp r), p_v = v\<rparr> # series rs k
           else series rs k))"

definition lastN :: "'a list \<Rightarrow> nat \<Rightarrow> 'a list" where
  "lastN arr n = (if length arr \<le> n then arr else drop (length arr - n) arr)"

definition deltaOverWindow :: "point list \<Rightarrow> int \<Rightarrow> int \<Rightarrow> delta option" where
  "deltaOverWindow points fromT toT =
     (let inWin = filter (\<lambda>p. p_ms p \<ge> fromT \<and> p_ms p \<le> toT) points
      in if length inWin < 2 then None
         else let f = hd inWin; l = last inWin
              in Some \<lparr>delta_d = p_v l - p_v f, fromMs = p_ms f, toMs = p_ms l,
                       first_v = p_v f, last_v = p_v l\<rparr>)"

text \<open>The dispersion check. In the newer copy only the selected-device feed calls it; the
  older copy calls it in its global loop as well.\<close>

definition zAnomaly :: "point list \<Rightarrow> real \<Rightarrow> bool" where
  "zAnomaly points zTh =
     (let vals = map p_v points
      in if length vals < 12 then False
         else let m = the (mean vals); sd = std vals
              in if sd = 0 \<or> sd \<le> 1 / 10 ^ 9 then False
                 else \<bar>(last vals - m) / sd\<bar> > zTh)"

section \<open>Event store\<close>

definition fresh_event :: event_state where
  "fresh_event =
     \<lparr>firstSeenMs = None, lastSeenMs = None, lastFiredStage = 0, lastToastMs = None,
      lastModalMs = None, lastCriticalMs = None, lastAckMs = None\<rparr>"

text \<open>
  \<open>getOrInitEvent\<close> returns a reference into the map which the caller then mutates. The
  model returns the map with the entry present; \<open>mutate\<close> is the caller's assignment to
  fields of the entry.
\<close>

definition getOrInitEvent :: "string \<Rightarrow> events \<Rightarrow> events" where
  "getOrInitEvent k EVENTS = (if EVENTS k = None then EVENTS(k \<mapsto> fresh_event) else EVENTS)"

definition mutate :: "string \<Rightarrow> (event_state \<Rightarrow> event_state) \<Rightarrow> events \<Rightarrow> events" where
  "mutate k f EVENTS = (case EVENTS k of None \<Rightarrow> EVENTS | Some st \<Rightarrow> EVENTS(k \<mapsto> f st))"

definition acknowledgeEvent :: "string \<Rightarrow> int \<Rightarrow> events \<Rightarrow> events" where
  "acknowledgeEvent k now EVENTS =
     (if k = [] then EVENTS
      else mutate k (\<lambda>st. st\<lparr>lastAckMs := Some now\<rparr>) (getOrInitEvent k EVENTS))"

definition isSnoozed :: "event_state \<Rightarrow> int \<Rightarrow> int \<Rightarrow> bool" where
  "isSnoozed st now snoozeMs =
     (if \<not> truthy (lastAckMs st) then False else now - the (lastAckMs st) < snoozeMs)"

text \<open>
  The state update the source repeats at each active observation:
  \<open>st = getOrInitEvent(eventKey); st.lastSeenMs = nowMs; if (!st.firstSeenMs) st.firstSeenMs = nowMs\<close>.
\<close>

definition seen :: "int \<Rightarrow> event_state \<Rightarrow> event_state" where
  "seen now st =
     (let st1 = st\<lparr>lastSeenMs := Some now\<rparr>
      in if \<not> truthy (firstSeenMs st1) then st1\<lparr>firstSeenMs := Some now\<rparr> else st1)"

definition markSeen :: "string \<Rightarrow> int \<Rightarrow> events \<Rightarrow> events" where
  "markSeen k now EVENTS = mutate k (seen now) (getOrInitEvent k EVENTS)"

text \<open>
  The reset the source repeats where a condition is over:
  \<open>if (EVENTS.has(eventKey)) { st.firstSeenMs = null; st.lastSeenMs = null; st.lastFiredStage = 0 }\<close>.
\<close>

definition cleared :: "event_state \<Rightarrow> event_state" where
  "cleared st = st\<lparr>firstSeenMs := None, lastSeenMs := None, lastFiredStage := 0\<rparr>"

definition clearEvent :: "string \<Rightarrow> events \<Rightarrow> events" where
  "clearEvent k EVENTS = mutate k cleared EVENTS"

section \<open>Message construction\<close>

text \<open>JavaScript \<open>%\<close>: the remainder has the sign of the dividend.\<close>

definition js_rem :: "int \<Rightarrow> int \<Rightarrow> int" where
  "js_rem a b = (if a \<ge> 0 then a mod \<bar>b\<bar> else - ((- a) mod \<bar>b\<bar>))"

definition buildOfflineEvent :: "string \<Rightarrow> int \<Rightarrow> int \<Rightarrow> string \<Rightarrow> string \<times> message" where
  "buildOfflineEvent name ageMs alertMs' L =
     (let sec = ageMs div 1000; m = sec div 60; s = js_rem sec 60
      in if ageMs \<ge> alertMs' then (''alert'', OFFLINE_ALERT L name m s)
         else (''warn'', OFFLINE_WARN L name sec))"

definition makeSpikeText :: "string \<Rightarrow> string \<Rightarrow> metric \<Rightarrow> delta \<Rightarrow> message" where
  "makeSpikeText L name m dl = TOAST_SPIKE L m name (delta_d dl) (fromMs dl) (toMs dl)"

definition deltaFromWindow :: "point list \<Rightarrow> int \<Rightarrow> delta option" where
  "deltaFromWindow points windowMs =
     (if length points < 2 then None
      else let now = p_ms (last points); fromT = now - windowMs
           in deltaOverWindow points fromT now)"

definition lastStepDelta :: "point list \<Rightarrow> delta option" where
  "lastStepDelta points =
     (if length points < 2 then None
      else let a = points ! (length points - 2); b = points ! (length points - 1)
           in Some \<lparr>delta_d = p_v b - p_v a, fromMs = p_ms a, toMs = p_ms b,
                    first_v = p_v a, last_v = p_v b\<rparr>)"

section \<open>evaluateGlobal\<close>

definition WIN_5M :: int where "WIN_5M = 5 * 60 * 1000"
definition WIN_10M :: int where "WIN_10M = 10 * 60 * 1000"

fun TH :: "metric \<Rightarrow> thresholds" where
  "TH Temperature = \<lparr>spike = 3, slow5m = 3, slow10m = 4\<rparr>"
| "TH Humidity = \<lparr>spike = 12, slow5m = 10, slow10m = 15\<rparr>"
| "TH Pressure = \<lparr>spike = 2, slow5m = 2, slow10m = 3\<rparr>"
| "TH Light = \<lparr>spike = 1500, slow5m = 1200, slow10m = 2000\<rparr>"

text \<open>\<open>dev.deviceName || deviceId || "Device"\<close>\<close>

definition displayName :: "device \<Rightarrow> string" where
  "displayName dev =
     (if deviceName dev \<noteq> [] then deviceName dev
      else if deviceId dev \<noteq> [] then deviceId dev else ''Device'')"

definition offlineKey :: "device \<Rightarrow> string" where
  "offlineKey dev = deviceId dev @ '':offline''"

definition anomalyKey :: "device \<Rightarrow> metric \<Rightarrow> string" where
  "anomalyKey dev m = deviceId dev @ '':'' @ key m @ '':anomaly''"

definition hit :: "delta option \<Rightarrow> real \<Rightarrow> bool" where
  "hit dl th = (case dl of None \<Rightarrow> False | Some x \<Rightarrow> \<bar>delta_d x\<bar> \<ge> th)"

definition stepOf :: "point list \<Rightarrow> delta option" where
  "stepOf pts = lastStepDelta pts"

definition d5Of :: "point list \<Rightarrow> delta option" where
  "d5Of pts = (if length pts \<ge> 10 then deltaFromWindow pts WIN_5M else None)"

definition d10Of :: "point list \<Rightarrow> delta option" where
  "d10Of pts = (if length pts \<ge> 10 then deltaFromWindow pts WIN_10M else None)"

text \<open>\<open>active = spikeHit || slow5Hit || slow10Hit\<close> for one metric of one device.\<close>

definition active :: "metric \<Rightarrow> point list \<Rightarrow> bool" where
  "active m pts =
     (hit (stepOf pts) (spike (TH m)) \<or> hit (d5Of pts) (slow5m (TH m))
      \<or> hit (d10Of pts) (slow10m (TH m)))"

text \<open>The delta to report: spike, else 5-minute window, else \<open>d10 || step\<close>.\<close>

definition dUse :: "metric \<Rightarrow> point list \<Rightarrow> delta option" where
  "dUse m pts =
     (if hit (stepOf pts) (spike (TH m)) then stepOf pts
      else if hit (d5Of pts) (slow5m (TH m)) then d5Of pts
      else (case d10Of pts of Some x \<Rightarrow> Some x | None \<Rightarrow> stepOf pts))"

text \<open>
  The body of the loop over the metrics of one device. The accumulator is the event map
  and the list \<open>candidates\<close>, in push order.
\<close>

definition evalMetric ::
  "input \<Rightarrow> string \<Rightarrow> device \<Rightarrow> events \<times> candidate list \<Rightarrow> metric \<Rightarrow> events \<times> candidate list"
where
  "evalMetric inp L dev acc m =
     (let EVENTS = fst acc; candidates = snd acc;
          pts = series (rows dev) m;
          k = anomalyKey dev m
      in if length pts < 3 then acc
         else if \<not> active m pts then
           (case EVENTS k of
              None \<Rightarrow> acc
            | Some st \<Rightarrow>
                (let quietFor = (if truthy (lastSeenMs st) then nowMs inp - the (lastSeenMs st) else 0)
                 in if quietFor > repeatWindowMs inp then (clearEvent k EVENTS, candidates)
                    else acc))
         else
           (let E1 = markSeen k (nowMs inp) EVENTS;
                st = the (E1 k)
            in if isSnoozed st (nowMs inp) (modalSnoozeMs inp) then (E1, candidates)
               else
                 (let msg = makeSpikeText L (displayName dev) m (the (dUse m pts));
                      seenFor = nowMs inp - orElse (firstSeenMs st) (nowMs inp);
                      stg = (if seenFor \<ge> persistWindowMs inp then 3 else 2);
                      lvl = (if seenFor \<ge> persistWindowMs inp then ''critical'' else ''modal'');
                      E2 = (if stg > lastFiredStage st
                            then mutate k (\<lambda>s. s\<lparr>lastFiredStage := stg\<rparr>) E1 else E1)
                  in if stg = 3 then
                       (E2, candidates @
                          [\<lparr>level = lvl,
                            text = MODAL_PERSIST L (displayName dev) m (max 30 (seenFor div 60000)),
                            eventKey = k, stage = stg, candDeviceName = displayName dev,
                            metricName = key m, seenSinceMs = firstSeenMs st\<rparr>])
                     else
                       (E2, candidates @
                          [\<lparr>level = lvl, text = msg, eventKey = k, stage = stg,
                            candDeviceName = displayName dev, metricName = key m,
                            seenSinceMs = firstSeenMs st\<rparr>]))))"

text \<open>The candidate an active, not snoozed offline condition pushes.\<close>

definition offlineCandidate :: "int \<Rightarrow> string \<Rightarrow> device \<Rightarrow> message \<Rightarrow> event_state \<Rightarrow> candidate" where
  "offlineCandidate stg lvl dev msg st =
     \<lparr>level = lvl, text = msg, eventKey = offlineKey dev, stage = stg,
      candDeviceName = displayName dev, metricName = ''offline'', seenSinceMs = firstSeenMs st\<rparr>"

text \<open>The body of the loop over the devices: offline detection, then the four metrics.\<close>

definition evalDevice ::
  "input \<Rightarrow> string \<Rightarrow> events \<times> candidate list \<Rightarrow> device \<Rightarrow> events \<times> candidate list"
where
  "evalDevice inp L acc dev =
     (let EVENTS = fst acc; candidates = snd acc; k = offlineKey dev
      in if \<not> truthy (lastDataMs dev) then
           (let E1 = markSeen k (nowMs inp) EVENTS; st = the (E1 k)
            in if \<not> isSnoozed st (nowMs inp) (modalSnoozeMs inp) then
                 (let ev = buildOfflineEvent (displayName dev) (alertMs inp + 1) (alertMs inp) L
                  in (E1, candidates @ [offlineCandidate 2 ''modal'' dev (snd ev) st]))
               else (E1, candidates))
         else
           (let age = nowMs inp - the (lastDataMs dev);
                acc1 =
                  (if age \<ge> warnMs inp then
                     (let E1 = markSeen k (nowMs inp) EVENTS; st = the (E1 k)
                      in if \<not> isSnoozed st (nowMs inp) (modalSnoozeMs inp) then
                           (let ev = buildOfflineEvent (displayName dev) age (alertMs inp) L
                            in if age \<ge> alertMs inp
                               then (E1, candidates @ [offlineCandidate 2 ''modal'' dev (snd ev) st])
                               else (E1, candidates @ [offlineCandidate 1 ''warn'' dev (snd ev) st]))
                         else (E1, candidates))
                   else (clearEvent k EVENTS, candidates))
            in foldl (evalMetric inp L dev) acc1 [Temperature, Humidity, Pressure, Light]))"

text \<open>
  The comparator of \<open>candidates.sort\<close>: stage descending, then \<open>seenSinceMs || 0\<close>
  descending. \<open>Array.prototype.sort\<close> is stable; with this comparator (a total preorder)
  its result is the stable insertion sort below.
\<close>

definition cmp :: "candidate \<Rightarrow> candidate \<Rightarrow> int" where
  "cmp a b =
     (if stage b \<noteq> stage a then stage b - stage a
      else orElse (seenSinceMs b) 0 - orElse (seenSinceMs a) 0)"

fun insertCand :: "candidate \<Rightarrow> candidate list \<Rightarrow> candidate list" where
  "insertCand x [] = [x]"
| "insertCand x (y # ys) = (if cmp x y \<le> 0 then x # y # ys else y # insertCand x ys)"

definition sortCands :: "candidate list \<Rightarrow> candidate list" where
  "sortCands xs = foldr insertCand xs []"

text \<open>The ack step: \<open>if (ackEventKey) acknowledgeEvent(ackEventKey, nowMs)\<close>.\<close>

definition applyAck :: "input \<Rightarrow> events \<Rightarrow> events" where
  "applyAck inp EVENTS =
     (case ackEventKey inp of
        None \<Rightarrow> EVENTS
      | Some k \<Rightarrow> if k = [] then EVENTS else acknowledgeEvent k (nowMs inp) EVENTS)"

text \<open>The event map and the candidates after the ack step and the first devices \<open>ds\<close>.\<close>

definition collectOver :: "input \<Rightarrow> device list \<Rightarrow> events \<Rightarrow> events \<times> candidate list" where
  "collectOver inp ds EVENTS =
     foldl (evalDevice inp (detectLang (langMode inp) (navigatorJa inp))) (applyAck inp EVENTS, []) ds"

definition collect :: "input \<Rightarrow> events \<Rightarrow> events \<times> candidate list" where
  "collect inp EVENTS = collectOver inp (devices inp) EVENTS"

text \<open>The end of \<open>evaluateGlobal\<close>: nothing, or the top candidate as a modal.\<close>

definition arbitrate :: "string \<Rightarrow> candidate list \<Rightarrow> result" where
  "arbitrate L candidates =
     (if candidates = [] then \<lparr>toast = None, modal = None, lang = L\<rparr>
      else let top = hd (sortCands candidates)
           in if stage top = 3 then
                \<lparr>toast = None,
                 modal = Some \<lparr>level = ''critical'', text = text top, eventKey = eventKey top\<rparr>,
                 lang = L\<rparr>
              else
                \<lparr>toast = None,
                 modal = Some \<lparr>level = ''modal'', text = text top, eventKey = eventKey top\<rparr>,
                 lang = L\<rparr>)"

text \<open>\<open>evaluateGlobal\<close> returns its result and leaves the event map mutated.\<close>

definition evaluateGlobal :: "input \<Rightarrow> events \<Rightarrow> result \<times> events" where
  "evaluateGlobal inp EVENTS =
     (let r = collect inp EVENTS
      in (arbitrate (detectLang (langMode inp) (navigatorJa inp)) (snd r), fst r))"

section \<open>What one evaluation does to one event key\<close>

text \<open>
  The loops of \<open>evaluateGlobal\<close> touch the event map at one key per condition. The
  definitions below give, for one device and one condition, the new entry of its key and
  the candidates it pushes as functions of the old entry alone; \<open>evalMetric_view\<close> and
  \<open>evalDevice_view\<close> prove that the loop bodies compute exactly these.
\<close>

definition entryOr :: "event_state option \<Rightarrow> event_state" where
  "entryOr e = (case e of None \<Rightarrow> fresh_event | Some st \<Rightarrow> st)"

definition offlineActive :: "input \<Rightarrow> device \<Rightarrow> bool" where
  "offlineActive inp dev =
     (\<not> truthy (lastDataMs dev) \<or> nowMs inp - the (lastDataMs dev) \<ge> warnMs inp)"

definition offlineEntry :: "input \<Rightarrow> device \<Rightarrow> event_state option \<Rightarrow> event_state option" where
  "offlineEntry inp dev e =
     (if offlineActive inp dev then Some (seen (nowMs inp) (entryOr e)) else map_option cleared e)"

definition offlineShown :: "input \<Rightarrow> string \<Rightarrow> device \<Rightarrow> event_state \<Rightarrow> candidate" where
  "offlineShown inp L dev st =
     (if \<not> truthy (lastDataMs dev) then
        offlineCandidate 2 ''modal'' dev
          (snd (buildOfflineEvent (displayName dev) (alertMs inp + 1) (alertMs inp) L)) st
      else if nowMs inp - the (lastDataMs dev) \<ge> alertMs inp then
        offlineCandidate 2 ''modal'' dev
          (snd (buildOfflineEvent (displayName dev) (nowMs inp - the (lastDataMs dev)) (alertMs inp) L)) st
      else
        offlineCandidate 1 ''warn'' dev
          (snd (buildOfflineEvent (displayName dev) (nowMs inp - the (lastDataMs dev)) (alertMs inp) L)) st)"

definition offlineCands :: "input \<Rightarrow> string \<Rightarrow> device \<Rightarrow> event_state option \<Rightarrow> candidate list" where
  "offlineCands inp L dev e =
     (if \<not> offlineActive inp dev then []
      else if isSnoozed (seen (nowMs inp) (entryOr e)) (nowMs inp) (modalSnoozeMs inp) then []
      else [offlineShown inp L dev (seen (nowMs inp) (entryOr e))])"

definition metricActive :: "device \<Rightarrow> metric \<Rightarrow> bool" where
  "metricActive dev m = (3 \<le> length (series (rows dev) m) \<and> active m (series (rows dev) m))"

definition seenFor :: "input \<Rightarrow> event_state \<Rightarrow> int" where
  "seenFor inp st = nowMs inp - orElse (firstSeenMs st) (nowMs inp)"

definition anomalyStage :: "input \<Rightarrow> event_state \<Rightarrow> int" where
  "anomalyStage inp st = (if seenFor inp st \<ge> persistWindowMs inp then 3 else 2)"

definition quietFor :: "input \<Rightarrow> event_state \<Rightarrow> int" where
  "quietFor inp st = (if truthy (lastSeenMs st) then nowMs inp - the (lastSeenMs st) else 0)"

definition anomalyEntry :: "input \<Rightarrow> device \<Rightarrow> metric \<Rightarrow> event_state option \<Rightarrow> event_state option" where
  "anomalyEntry inp dev m e =
     (if length (series (rows dev) m) < 3 then e
      else if \<not> active m (series (rows dev) m) then
        (case e of None \<Rightarrow> None
         | Some st \<Rightarrow> if quietFor inp st > repeatWindowMs inp then Some (cleared st) else Some st)
      else
        (let st = seen (nowMs inp) (entryOr e)
         in if isSnoozed st (nowMs inp) (modalSnoozeMs inp) then Some st
            else if anomalyStage inp st > lastFiredStage st
                 then Some (st\<lparr>lastFiredStage := anomalyStage inp st\<rparr>) else Some st))"

definition anomalyShown :: "input \<Rightarrow> string \<Rightarrow> device \<Rightarrow> metric \<Rightarrow> event_state \<Rightarrow> candidate" where
  "anomalyShown inp L dev m st =
     (if anomalyStage inp st = 3 then
        \<lparr>level = ''critical'',
         text = MODAL_PERSIST L (displayName dev) m (max 30 (seenFor inp st div 60000)),
         eventKey = anomalyKey dev m, stage = 3, candDeviceName = displayName dev,
         metricName = key m, seenSinceMs = firstSeenMs st\<rparr>
      else
        \<lparr>level = ''modal'',
         text = makeSpikeText L (displayName dev) m (the (dUse m (series (rows dev) m))),
         eventKey = anomalyKey dev m, stage = 2, candDeviceName = displayName dev,
         metricName = key m, seenSinceMs = firstSeenMs st\<rparr>)"

definition anomalyCands :: "input \<Rightarrow> string \<Rightarrow> device \<Rightarrow> metric \<Rightarrow> event_state option \<Rightarrow> candidate list" where
  "anomalyCands inp L dev m e =
     (if \<not> metricActive dev m then []
      else if isSnoozed (seen (nowMs inp) (entryOr e)) (nowMs inp) (modalSnoozeMs inp) then []
      else [anomalyShown inp L dev m (seen (nowMs inp) (entryOr e))])"

definition devStore :: "input \<Rightarrow> device \<Rightarrow> events \<Rightarrow> events" where
  "devStore inp dev E =
     (\<lambda>k. if k = offlineKey dev then offlineEntry inp dev (E k)
          else if \<not> truthy (lastDataMs dev) then E k
          else if k = anomalyKey dev Temperature then anomalyEntry inp dev Temperature (E k)
          else if k = anomalyKey dev Humidity then anomalyEntry inp dev Humidity (E k)
          else if k = anomalyKey dev Pressure then anomalyEntry inp dev Pressure (E k)
          else if k = anomalyKey dev Light then anomalyEntry inp dev Light (E k)
          else E k)"

definition devCands :: "input \<Rightarrow> string \<Rightarrow> device \<Rightarrow> events \<Rightarrow> candidate list" where
  "devCands inp L dev E =
     offlineCands inp L dev (E (offlineKey dev)) @
     (if \<not> truthy (lastDataMs dev) then []
      else anomalyCands inp L dev Temperature (E (anomalyKey dev Temperature)) @
           anomalyCands inp L dev Humidity (E (anomalyKey dev Humidity)) @
           anomalyCands inp L dev Pressure (E (anomalyKey dev Pressure)) @
           anomalyCands inp L dev Light (E (anomalyKey dev Light)))"

section \<open>Concrete inputs\<close>

text \<open>
  \<open>dashboardInput\<close> is the call \<open>runGlobalAI\<close> of dashboard.js makes: offline warning at
  45 s, offline modal at 5 min, repeat window 10 min, persist window 30 min, snooze 5 min.
\<close>

definition mkDevice :: "string \<Rightarrow> row list \<Rightarrow> int option \<Rightarrow> device" where
  "mkDevice i rs l = \<lparr>deviceId = i, deviceName = [], rows = rs, lastDataMs = l\<rparr>"

definition dashboardInput :: "device list \<Rightarrow> int \<Rightarrow> string option \<Rightarrow> input" where
  "dashboardInput ds t a =
     \<lparr>devices = ds, nowMs = t, langMode = ''en'', navigatorJa = False, warnMs = 45000,
      alertMs = 300000, repeatWindowMs = 600000, persistWindowMs = 1800000,
      modalSnoozeMs = 300000, ackEventKey = a\<rparr>"

text \<open>The loop over the devices in the same terms: the event map after the devices
  \<open>ds\<close>, and the candidates they push, in order.\<close>

definition storeAfter :: "input \<Rightarrow> events \<Rightarrow> device list \<Rightarrow> events" where
  "storeAfter inp E ds = foldl (\<lambda>E' d. devStore inp d E') E ds"

fun candsFrom :: "input \<Rightarrow> string \<Rightarrow> events \<Rightarrow> device list \<Rightarrow> candidate list" where
  "candsFrom inp L E [] = []"
| "candsFrom inp L E (d # ds) = devCands inp L d E @ candsFrom inp L (devStore inp d E) ds"

text \<open>
  The older copy of ai.js in the repository ends \<open>evaluateGlobal\<close> with a third branch:
  a top candidate of stage 1 is returned as a toast. \<open>arbitrate_part000\<close> is that ending.
\<close>

definition arbitrate_part000 :: "string \<Rightarrow> candidate list \<Rightarrow> result" where
  "arbitrate_part000 L candidates =
     (if candidates = [] then \<lparr>toast = None, modal = None, lang = L\<rparr>
      else let top = hd (sortCands candidates)
           in if stage top = 3 then
                \<lparr>toast = None,
                 modal = Some \<lparr>level = ''critical'', text = text top, eventKey = eventKey top\<rparr>,
                 lang = L\<rparr>
              else if stage top = 2 then
                \<lparr>toast = None,
                 modal = Some \<lparr>level = ''modal'', text = text top, eventKey = eventKey top\<rparr>,
                 lang = L\<rparr>
              else
                \<lparr>toast = Some \<lparr>level = (if level top = ''alert'' then ''alert'' else ''warn''),
                               text = text top, eventKey = eventKey top\<rparr>,
                 modal = None, lang = L\<rparr>)"

text \<open>The keys a device's conditions use.\<close>

definition owns :: "device \<Rightarrow> string \<Rightarrow> bool" where
  "owns d k = (k = offlineKey d \<or> k = anomalyKey d Temperature \<or> k = anomalyKey d Humidity
               \<or> k = anomalyKey d Pressure \<or> k = anomalyKey d Light)"

text \<open>Successive calls of \<open>evaluateGlobal\<close> on the same event map, as the poller makes them.\<close>

fun cycles :: "input list \<Rightarrow> events \<Rightarrow> events" where
  "cycles [] E = E"
| "cycles (i # is) E = cycles is (snd (evaluateGlobal i E))"

text \<open>
  Rows with a temperature only, and the series of the specification's scenario: a step
  from 20.0 to 24.0 between the last two samples.
\<close>

definition mkRow :: "real \<Rightarrow> int \<Rightarrow> row" where
  "mkRow t ms = \<lparr>clamped = (\<lambda>k. if k = Temperature then Some t else None), timestamp = Some ms\<rparr>"

definition spikeRows :: "row list" where
  "spikeRows = [mkRow 20 1000, mkRow 20 11000, mkRow 24 21000]"

text \<open>
  What holds of every entry of an event map reached by cycles with one persist window \<open>P\<close>
  and a clock that does not run backwards, at the time \<open>t\<close> of the last cycle: a stage is
  recorded only under an anomaly key, and a recorded stage 3 means the event has been seen
  for at least \<open>P\<close>.
\<close>

definition stageInv :: "int \<Rightarrow> int \<Rightarrow> string \<Rightarrow> event_state \<Rightarrow> bool" where
  "stageInv P t k st =
     (lastFiredStage st = 0 \<or>
      ((\<exists>p. k = p @ '':anomaly'') \<and>
       (lastFiredStage st = 2 \<or>
        (lastFiredStage st = 3 \<and> P \<le> t - orElse (firstSeenMs st) t))))"

definition storeInv :: "int \<Rightarrow> int \<Rightarrow> events \<Rightarrow> bool" where
  "storeInv P t E = (\<forall>k st. E k = Some st \<longrightarrow> stageInv P t k st)"

text \<open>
  A condition of key \<open>k\<close> is active for a device when the loop body takes its active
  branch: the offline condition, or the anomaly of one metric (the anomaly loop runs only
  when the last-data time is truthy). It is active in an evaluation when some device of
  the snapshot reports it active and every device that uses the key does.
\<close>

definition conditionActive :: "input \<Rightarrow> device \<Rightarrow> string \<Rightarrow> bool" where
  "conditionActive inp d k =
     ((k = offlineKey d \<and> offlineActive inp d) \<or>
      (truthy (lastDataMs d) \<and>
       (\<exists>m\<in>{Temperature, Humidity, Pressure, Light}. k = anomalyKey d m \<and> metricActive d m)))"

definition conditionActiveIn :: "input \<Rightarrow> string \<Rightarrow> bool" where
  "conditionActiveIn inp k =
     ((\<exists>d\<in>set (devices inp). conditionActive inp d k) \<and>
      (\<forall>d\<in>set (devices inp). owns d k \<longrightarrow> conditionActive inp d k))"

text \<open>A device with the scenario's series, last heard at 21000, and an event state
  written out.\<close>

definition devB :: device where
  "devB = mkDevice ''B'' spikeRows (Some 21000)"

definition stB :: "int option \<Rightarrow> int option \<Rightarrow> int \<Rightarrow> int option \<Rightarrow> event_state" where
  "stB f l s a =
     \<lparr>firstSeenMs = f, lastSeenMs = l, lastFiredStage = s, lastToastMs = None,
      lastModalMs = None, lastCriticalMs = None, lastAckMs = a\<rparr>"

text \<open>
  Two snapshots of a device that differ at most in their rows, and whose series give, for
  each metric, the same "fewer than 3 points" test, the same last step and the same 5 and
  10 minute window deltas.
\<close>

definition sameDeltas :: "device \<Rightarrow> device \<Rightarrow> bool" where
  "sameDeltas d d' =
     (deviceId d = deviceId d' \<and> deviceName d = deviceName d' \<and> lastDataMs d = lastDataMs d' \<and>
      (\<forall>m\<in>{Temperature, Humidity, Pressure, Light}.
         (length (series (rows d) m) < 3 \<longleftrightarrow> length (series (rows d') m) < 3) \<and>
         stepOf (series (rows d) m) = stepOf (series (rows d') m) \<and>
         d5Of (series (rows d) m) = d5Of (series (rows d') m) \<and>
         d10Of (series (rows d) m) = d10Of (series (rows d') m)))"

text \<open>
  Two temperature histories with the same last step and the same 5 and 10 minute deltas
  (+2.0, below every threshold). The first has seventeen points and its last value is four
  standard deviations from the mean; the second has eleven points, fewer than the twelve
  \<open>zAnomaly\<close> asks for.
\<close>

definition flatRows :: "row list" where
  "flatRows =
     [mkRow 20 1000, mkRow 20 11000, mkRow 20 21000, mkRow 20 31000, mkRow 20 41000,
      mkRow 20 51000, mkRow 20 61000, mkRow 20 71000, mkRow 20 81000, mkRow 20 91000,
      mkRow 20 101000, mkRow 20 111000, mkRow 20 121000, mkRow 20 131000, mkRow 20 141000,
      mkRow 20 151000, mkRow 22 161000]"

definition shortRows :: "row list" where
  "shortRows =
     [mkRow 20 1000, mkRow 20 71000, mkRow 20 81000, mkRow 20 91000,
      mkRow 20 101000, mkRow 20 111000, mkRow 20 121000, mkRow 20 131000, mkRow 20 141000,
      mkRow 20 151000, mkRow 22 161000]"

definition flatPts :: "point list" where
  "flatPts =
     [\<lparr>p_ms = 1000, p_v = 20\<rparr>, \<lparr>p_ms = 11000, p_v = 20\<rparr>, \<lparr>p_ms = 21000, p_v = 20\<rparr>,
      \<lparr>p_ms = 31000, p_v = 20\<rparr>, \<lparr>p_ms = 41000, p_v = 20\<rparr>, \<lparr>p_ms = 51000, p_v = 20\<rparr>,
      \<lparr>p_ms = 61000, p_v = 20\<rparr>, \<lparr>p_ms = 71000, p_v = 20\<rparr>, \<lparr>p_ms = 81000, p_v = 20\<rparr>,
      \<lparr>p_ms = 91000, p_v = 20\<rparr>, \<lparr>p_ms = 101000, p_v = 20\<rparr>, \<lparr>p_ms = 111000, p_v = 20\<rparr>,
      \<lparr>p_ms = 121000, p_v = 20\<rparr>, \<lparr>p_ms = 131000, p_v = 20\<rparr>, \<lparr>p_ms = 141000, p_v = 20\<rparr>,
      \<lparr>p_ms = 151000, p_v = 20\<rparr>, \<lparr>p_ms = 161000, p_v = 22\<rparr>]"

definition shortPts :: "point list" where
  "shortPts =
     [\<lparr>p_ms = 1000, p_v = 20\<rparr>, \<lparr>p_ms = 71000, p_v = 20\<rparr>, \<lparr>p_ms = 81000, p_v = 20\<rparr>,
      \<lparr>p_ms = 91000, p_v = 20\<rparr>, \<lparr>p_ms = 101000, p_v = 20\<rparr>, \<lparr>p_ms = 111000, p_v = 20\<rparr>,
      \<lparr>p_ms = 121000, p_v = 20\<rparr>, \<lparr>p_ms = 131000, p_v = 20\<rparr>, \<lparr>p_ms = 141000, p_v = 20\<rparr>,
      \<lparr>p_ms = 151000, p_v = 20\<rparr>, \<lparr>p_ms = 161000, p_v = 22\<rparr>]"

definition zDev :: device where "zDev = mkDevice ''Z'' flatRows (Some 161000)"

definition qDev :: device where "qDev = mkDevice ''Z'' shortRows (Some 161000)"

text \<open>
  Four offline conditions in one call at 200000: D last heard 60 s ago (warning, stage 1);
  A, B and C never heard (stage 2), A first seen in the call at 100000, B and C first seen
  now.
\<close>

definition tieInput :: input where
  "tieInput = dashboardInput [mkDevice ''D'' [] (Some 140000), mkDevice ''A'' [] None,
                              mkDevice ''B'' [] None, mkDevice ''C'' [] None] 200000 None"

definition tieStore :: events where
  "tieStore = snd (evaluateGlobal (dashboardInput [mkDevice ''A'' [] None] 100000 None) Map.empty)"

text \<open>
  The older copy of ai.js detects global anomalies differently. Its loop over the metrics
  asks for twelve points, checks the change over the last minute and the last ten minutes
  against \<open>spike1m\<close> and \<open>spike10m\<close> (\<open>spikeCheck\<close>), and also calls \<open>zAnomaly\<close> on
  the last forty points: \<open>active = !!(d1 || d10 || z)\<close>. An active metric starts at stage 1
  and is raised to stage 2 after two minutes or once it has fired. The offline block, the
  helpers and the event store are the same in both copies. In \<open>dUse\<close> the condition
  \<open>d1 || d10 || pts.length >= 2\<close> holds for every series that got this far, so \<open>dUse\<close> is
  the last step; that object has no \<open>first\<close> and \<open>last\<close>, which \<open>makeSpikeText\<close> does not
  read.
\<close>

record spike_thresholds =
  spike1m :: real
  spike10m :: real

fun TH_part000 :: "metric \<Rightarrow> spike_thresholds" where
  "TH_part000 Temperature = \<lparr>spike1m = 25 / 10, spike10m = 4\<rparr>"
| "TH_part000 Humidity = \<lparr>spike1m = 8, spike10m = 14\<rparr>"
| "TH_part000 Pressure = \<lparr>spike1m = 15 / 10, spike10m = 3\<rparr>"
| "TH_part000 Light = \<lparr>spike1m = 400, spike10m = 900\<rparr>"

definition spikeCheck :: "point list \<Rightarrow> int \<Rightarrow> real \<Rightarrow> delta option" where
  "spikeCheck points minutesWindow absThreshold =
     (if points = [] then None
      else let now = p_ms (last points); fromT = now - minutesWindow * 60 * 1000
           in case deltaOverWindow points fromT now of
                None \<Rightarrow> None
              | Some d \<Rightarrow> if \<bar>delta_d d\<bar> \<ge> absThreshold then Some d else None)"

text \<open>Truthiness of a delta object or null, and \<open>a || b\<close> on two of them.\<close>

definition truthyD :: "delta option \<Rightarrow> bool" where
  "truthyD d = (case d of None \<Rightarrow> False | Some x \<Rightarrow> True)"

definition orDelta :: "delta option \<Rightarrow> delta option \<Rightarrow> delta option" where
  "orDelta a b = (case a of None \<Rightarrow> b | Some x \<Rightarrow> Some x)"

definition evalMetric_part000 ::
  "input \<Rightarrow> string \<Rightarrow> device \<Rightarrow> events \<times> candidate list \<Rightarrow> metric \<Rightarrow> events \<times> candidate list"
where
  "evalMetric_part000 inp L dev acc m =
     (let EVENTS = fst acc; candidates = snd acc;
          pts = series (rows dev) m;
          k = anomalyKey dev m
      in if length pts < 12 then acc
         else
           (let d1 = spikeCheck pts 1 (spike1m (TH_part000 m));
                d10 = spikeCheck pts 10 (spike10m (TH_part000 m));
                z = zAnomaly (lastN pts 40) (29 / 10)
            in if \<not> (truthyD (orDelta d1 d10) \<or> z) then
                 (case EVENTS k of
                    None \<Rightarrow> acc
                  | Some st \<Rightarrow>
                      (let quietFor = (if truthy (lastSeenMs st) then nowMs inp - the (lastSeenMs st) else 0)
                       in if quietFor > repeatWindowMs inp then (clearEvent k EVENTS, candidates)
                          else acc))
               else
                 (let E1 = markSeen k (nowMs inp) EVENTS;
                      st = the (E1 k)
                  in if isSnoozed st (nowMs inp) (modalSnoozeMs inp) then (E1, candidates)
                     else
                       (let a = pts ! (length pts - 2); b = pts ! (length pts - 1);
                            dUse = \<lparr>delta_d = p_v b - p_v a, fromMs = p_ms a, toMs = p_ms b,
                                    first_v = p_v a, last_v = p_v b\<rparr>;
                            msg = (if truthyD (orDelta d1 d10)
                                   then makeSpikeText L (displayName dev) m (the (orDelta d1 d10))
                                   else makeSpikeText L (displayName dev) m dUse);
                            seenFor = nowMs inp - orElse (firstSeenMs st) (nowMs inp);
                            stg = (if seenFor \<ge> persistWindowMs inp then 3
                                   else if real_of_int seenFor \<ge>
                                             min (2 * 60 * 1000) (real_of_int (repeatWindowMs inp) / 5)
                                           \<or> lastFiredStage st \<ge> 1 then 2
                                   else 1);
                            lvl = (if stg = 3 then ''critical'' else if stg = 2 then ''modal'' else ''warn'');
                            E2 = (if stg > lastFiredStage st
                                  then mutate k (\<lambda>s. s\<lparr>lastFiredStage := stg\<rparr>) E1 else E1)
                        in if stg = 2 then
                             (E2, candidates @
                                [\<lparr>level = lvl, text = MODAL_REPEAT L (displayName dev) m,
                                  eventKey = k, stage = stg, candDeviceName = displayName dev,
                                  metricName = key m, seenSinceMs = firstSeenMs st\<rparr>])
                           else if stg = 3 then
                             (E2, candidates @
                                [\<lparr>level = lvl,
                                  text = MODAL_PERSIST L (displayName dev) m (max 30 (seenFor div 60000)),
                                  eventKey = k, stage = stg, candDeviceName = displayName dev,
                                  metricName = key m, seenSinceMs = firstSeenMs st\<rparr>])
                           else
                             (E2, candidates @
                                [\<lparr>level = lvl, text = msg, eventKey = k, stage = stg,
                                  candDeviceName = displayName dev, metricName = key m,
                                  seenSinceMs = firstSeenMs st\<rparr>])))))"

definition evalDevice_part000 ::
  "input \<Rightarrow> string \<Rightarrow> events \<times> candidate list \<Rightarrow> device \<Rightarrow> events \<times> candidate list"
where
  "evalDevice_part000 inp L acc dev =
     (let EVENTS = fst acc; candidates = snd acc; k = offlineKey dev
      in if \<not> truthy (lastDataMs dev) then
           (let E1 = markSeen k (nowMs inp) EVENTS; st = the (E1 k)
            in if \<not> isSnoozed st (nowMs inp) (modalSnoozeMs inp) then
                 (let ev = buildOfflineEvent (displayName dev) (alertMs inp + 1) (alertMs inp) L
                  in (E1, candidates @ [offlineCandidate 2 ''modal'' dev (snd ev) st]))
               else (E1, candidates))
         else
           (let age = nowMs inp - the (lastDataMs dev);
                acc1 =
                  (if age \<ge> warnMs inp then
                     (let E1 = markSeen k (nowMs inp) EVENTS; st = the (E1 k)
                      in if \<not> isSnoozed st (nowMs inp) (modalSnoozeMs inp) then
                           (let ev = buildOfflineEvent (displayName dev) age (alertMs inp) L
                            in if age \<ge> alertMs inp
                               then (E1, candidates @ [offlineCandidate 2 ''modal'' dev (snd ev) st])
                               else (E1, candidates @ [offlineCandidate 1 ''warn'' dev (snd ev) st]))
                         else (E1, candidates))
                   else (clearEvent k EVENTS, candidates))
            in foldl (evalMetric_part000 inp L dev) acc1 [Temperature, Humidity, Pressure, Light]))"

definition evaluateGlobal_part000 :: "input \<Rightarrow> events \<Rightarrow> result \<times> events" where
  "evaluateGlobal_part000 inp EVENTS =
     (let L = detectLang (langMode inp) (navigatorJa inp);
          r = foldl (evalDevice_part000 inp L) (applyAck inp EVENTS, []) (devices inp)
      in (arbitrate_part000 L (snd r), fst r))"

section \<open>Event keys\<close>
lemma offlineKey_inj: "offlineKey d = offlineKey d' \<longleftrightarrow> deviceId d = deviceId d'"
  by (simp add: offlineKey_def)

lemma key_inj: "key m = key m' \<longleftrightarrow> m = m'"
  by (cases m; cases m'; simp)

lemma key_suffix_neq: "m \<noteq> m' \<Longrightarrow> xs @ CHR '':'' # key m \<noteq> ys @ CHR '':'' # key m'"
proof
  assume ne: "m \<noteq> m'" and eq: "xs @ CHR '':'' # key m = ys @ CHR '':'' # key m'"
  from eq have "rev (xs @ CHR '':'' # key m) = rev (ys @ CHR '':'' # key m')" by simp
  with ne show False by (cases m; cases m'; simp)
qed

lemma anomalyKey_inj:
  "anomalyKey d m = anomalyKey d' m' \<longleftrightarrow> deviceId d = deviceId d' \<and> m = m'"
proof
  assume "anomalyKey d m = anomalyKey d' m'"
  then have e: "deviceId d @ CHR '':'' # key m = deviceId d' @ CHR '':'' # key m'"
    by (simp add: anomalyKey_def)
  then have mm: "m = m'" using key_suffix_neq by blast
  with e show "deviceId d = deviceId d' \<and> m = m'" by simp
next
  assume "deviceId d = deviceId d' \<and> m = m'"
  then show "anomalyKey d m = anomalyKey d' m'" by (simp add: anomalyKey_def)
qed

lemma offline_neq_anomaly: "offlineKey d \<noteq> anomalyKey d' m"
proof
  assume "offlineKey d = anomalyKey d' m"
  then have "rev (offlineKey d) = rev (anomalyKey d' m)" by simp
  then show False by (simp add: offlineKey_def anomalyKey_def)
qed

section \<open>The loop bodies, key by key\<close>

lemma markSeen_apply: "markSeen k now E = E(k \<mapsto> seen now (entryOr (E k)))"
  by (auto simp: markSeen_def mutate_def getOrInitEvent_def entryOr_def split: option.splits)

lemma clearEvent_apply: "clearEvent k E = E(k := map_option cleared (E k))"
  by (auto simp: clearEvent_def mutate_def split: option.splits)

lemma evalMetric_view:
  "evalMetric inp L dev (E, cs) m =
     (E(anomalyKey dev m := anomalyEntry inp dev m (E (anomalyKey dev m))),
      cs @ anomalyCands inp L dev m (E (anomalyKey dev m)))"
proof (cases "length (series (rows dev) m) < 3")
  case True
  then show ?thesis
    by (simp add: evalMetric_def anomalyEntry_def anomalyCands_def metricActive_def)
next
  case long: False
  show ?thesis
  proof (cases "active m (series (rows dev) m)")
    case False
    with long show ?thesis
      by (auto simp: evalMetric_def anomalyEntry_def anomalyCands_def metricActive_def
          clearEvent_apply quietFor_def Let_def split: option.splits)
  next
    case True
    with long show ?thesis
      by (auto simp: evalMetric_def anomalyEntry_def anomalyCands_def metricActive_def
          markSeen_apply anomalyStage_def seenFor_def anomalyShown_def mutate_def Let_def)
  qed
qed

lemma anomaly_neq_offline: "anomalyKey d' m \<noteq> offlineKey d"
  using offline_neq_anomaly by metis

lemma offlineStep_view:
  "(if nowMs inp - the (lastDataMs dev) \<ge> warnMs inp then
      (let E1 = markSeen (offlineKey dev) (nowMs inp) E; st = the (E1 (offlineKey dev))
       in if \<not> isSnoozed st (nowMs inp) (modalSnoozeMs inp) then
            (let ev = buildOfflineEvent (displayName dev) (nowMs inp - the (lastDataMs dev)) (alertMs inp) L
             in if nowMs inp - the (lastDataMs dev) \<ge> alertMs inp
                then (E1, cs @ [offlineCandidate 2 ''modal'' dev (snd ev) st])
                else (E1, cs @ [offlineCandidate 1 ''warn'' dev (snd ev) st]))
          else (E1, cs))
    else (clearEvent (offlineKey dev) E, cs)) =
   (E(offlineKey dev := offlineEntry inp dev (E (offlineKey dev))),
    cs @ offlineCands inp L dev (E (offlineKey dev)))" if "truthy (lastDataMs dev)"
  using that
  by (auto simp: offlineEntry_def offlineCands_def offlineActive_def offlineShown_def
      markSeen_apply clearEvent_apply Let_def)

lemma evalDevice_view:
  "evalDevice inp L (E, cs) dev = (devStore inp dev E, cs @ devCands inp L dev E)"
proof (cases "truthy (lastDataMs dev)")
  case False
  then have "fst (evalDevice inp L (E, cs) dev) = devStore inp dev E"
    by (auto simp: evalDevice_def devStore_def offlineEntry_def offlineActive_def
        markSeen_apply Let_def fun_eq_iff)
  moreover from False have "snd (evalDevice inp L (E, cs) dev) = cs @ devCands inp L dev E"
    by (auto simp: evalDevice_def devCands_def offlineCands_def offlineActive_def
        offlineShown_def markSeen_apply Let_def)
  ultimately show ?thesis by (simp add: prod_eq_iff)
next
  case True
  have ev: "evalDevice inp L (E, cs) dev =
      foldl (evalMetric inp L dev)
        (E(offlineKey dev := offlineEntry inp dev (E (offlineKey dev))),
         cs @ offlineCands inp L dev (E (offlineKey dev)))
        [Temperature, Humidity, Pressure, Light]"
    using True offlineStep_view[OF True, of inp E L cs]
    by (simp add: evalDevice_def Let_def del: foldl.simps)
  have st: "fst (evalDevice inp L (E, cs) dev) = devStore inp dev E"
    unfolding ev using True
    by (auto simp: evalMetric_view devStore_def fun_eq_iff anomalyKey_inj
        offline_neq_anomaly anomaly_neq_offline)
  have cd: "snd (evalDevice inp L (E, cs) dev) = cs @ devCands inp L dev E"
    unfolding ev using True
    by (simp add: evalMetric_view devCands_def anomalyKey_inj
        offline_neq_anomaly anomaly_neq_offline)
  from st cd show ?thesis by (simp add: prod_eq_iff)
qed

section \<open>Arbitration: the sort and the top candidate\<close>

lemma cmp_le_iff:
  "cmp a b \<le> 0 \<longleftrightarrow>
     stage b < stage a \<or> (stage b = stage a \<and> orElse (seenSinceMs b) 0 \<le> orElse (seenSinceMs a) 0)"
  by (auto simp: cmp_def)

lemma cmp_less_iff:
  "cmp a b < 0 \<longleftrightarrow>
     stage b < stage a \<or> (stage b = stage a \<and> orElse (seenSinceMs b) 0 < orElse (seenSinceMs a) 0)"
  by (auto simp: cmp_def)

lemma cmp_refl: "cmp a a \<le> 0"
  by (simp add: cmp_def)

lemma cmp_trans: "cmp a b \<le> 0 \<Longrightarrow> cmp b c \<le> 0 \<Longrightarrow> cmp a c \<le> 0"
  by (auto simp: cmp_le_iff)

lemma cmp_flip: "\<not> cmp a b \<le> 0 \<Longrightarrow> cmp b a < 0"
  by (auto simp: cmp_le_iff cmp_less_iff)

lemma set_insertCand: "set (insertCand x ys) = insert x (set ys)"
  by (induction ys) auto

lemma set_sortCands: "set (sortCands xs) = set xs"
  by (induction xs) (auto simp: sortCands_def set_insertCand)

lemma sortCands_Cons: "sortCands (x # xs) = insertCand x (sortCands xs)"
  by (simp add: sortCands_def)

lemma sortCands_Nil_iff: "sortCands xs = [] \<longleftrightarrow> xs = []"
  using set_sortCands[of xs] by (metis set_empty)

lemma hd_insertCand:
  "hd (insertCand x ys) = (if ys = [] \<or> cmp x (hd ys) \<le> 0 then x else hd ys)"
  by (cases ys) auto

lemma hd_sortCands_Cons:
  "hd (sortCands (x # xs)) = (if xs = [] \<or> cmp x (hd (sortCands xs)) \<le> 0 then x else hd (sortCands xs))"
  by (simp add: sortCands_Cons hd_insertCand sortCands_Nil_iff)

lemma hd_sortCands_best:
  "xs \<noteq> [] \<Longrightarrow> hd (sortCands xs) \<in> set xs \<and> (\<forall>c\<in>set xs. cmp (hd (sortCands xs)) c \<le> 0)"
proof (induction xs)
  case Nil
  then show ?case by simp
next
  case (Cons x xs)
  show ?case
  proof (cases "xs = []")
    case True
    then show ?thesis by (simp add: hd_sortCands_Cons cmp_refl)
  next
    case False
    with Cons.IH have ih: "hd (sortCands xs) \<in> set xs" "\<forall>c\<in>set xs. cmp (hd (sortCands xs)) c \<le> 0"
      by simp_all
    show ?thesis
    proof (cases "cmp x (hd (sortCands xs)) \<le> 0")
      case True
      then have "\<forall>c\<in>set xs. cmp x c \<le> 0" using ih(2) cmp_trans by blast
      with True show ?thesis by (simp add: hd_sortCands_Cons cmp_refl)
    next
      case nle: False
      then have "cmp (hd (sortCands xs)) x \<le> 0" using cmp_flip by fastforce
      with nle False ih show ?thesis by (simp add: hd_sortCands_Cons)
    qed
  qed
qed

lemma hd_sortCands_first:
  "xs \<noteq> [] \<Longrightarrow>
     \<exists>ys zs. xs = ys @ hd (sortCands xs) # zs \<and> (\<forall>y\<in>set ys. cmp (hd (sortCands xs)) y < 0)"
proof (induction xs)
  case Nil
  then show ?case by simp
next
  case (Cons x xs)
  show ?case
  proof (cases "xs = [] \<or> cmp x (hd (sortCands xs)) \<le> 0")
    case True
    then have "hd (sortCands (x # xs)) = x" by (simp add: hd_sortCands_Cons)
    then have "x # xs = [] @ hd (sortCands (x # xs)) # xs \<and> (\<forall>y\<in>set []. cmp (hd (sortCands (x # xs))) y < 0)"
      by simp
    then show ?thesis by blast
  next
    case False
    then have ne: "xs \<noteq> []" and nle: "\<not> cmp x (hd (sortCands xs)) \<le> 0" by simp_all
    from False have h: "hd (sortCands (x # xs)) = hd (sortCands xs)" by (simp add: hd_sortCands_Cons)
    from Cons.IH[OF ne] obtain ys zs where
      yz: "xs = ys @ hd (sortCands xs) # zs" "\<forall>y\<in>set ys. cmp (hd (sortCands xs)) y < 0" by blast
    from nle have "cmp (hd (sortCands xs)) x < 0" by (rule cmp_flip)
    with yz have "x # xs = (x # ys) @ hd (sortCands xs) # zs \<and> (\<forall>y\<in>set (x # ys). cmp (hd (sortCands xs)) y < 0)"
      by simp
    then show ?thesis unfolding h by blast
  qed
qed

lemma arbitrate_modal:
  "cs \<noteq> [] \<Longrightarrow> toast (arbitrate L cs) = None \<and>
     (\<exists>n. modal (arbitrate L cs) = Some n \<and> text n = text (hd (sortCands cs))
        \<and> eventKey n = eventKey (hd (sortCands cs))
        \<and> level n = (if stage (hd (sortCands cs)) = 3 then ''critical'' else ''modal''))"
  by (simp add: arbitrate_def Let_def)

lemma arbitrate_none: "toast (arbitrate L []) = None \<and> modal (arbitrate L []) = None"
  by (simp add: arbitrate_def)

lemma evaluateGlobal_fst:
  "fst (evaluateGlobal inp E) = arbitrate (detectLang (langMode inp) (navigatorJa inp)) (snd (collect inp E))"
  by (simp add: evaluateGlobal_def Let_def)

lemma evaluateGlobal_snd: "snd (evaluateGlobal inp E) = fst (collect inp E)"
  by (simp add: evaluateGlobal_def Let_def)

text \<open>
  Claim C1. Every result of \<open>evaluateGlobal\<close> has at most one of \<open>toast\<close> and \<open>modal\<close>
  set (none when there is no candidate), and when there is a candidate the notification
  carries the text and event key of a candidate that is maximal in the order of the sort:
  every candidate has a lower stage, or the same stage and a \<open>seenSinceMs || 0\<close> that is
  not larger.
\<close>

theorem evaluateGlobal_single_top:
  "\<not> (toast (fst (evaluateGlobal inp E)) \<noteq> None \<and> modal (fst (evaluateGlobal inp E)) \<noteq> None) \<and>
   (snd (collect inp E) = [] \<longrightarrow>
      toast (fst (evaluateGlobal inp E)) = None \<and> modal (fst (evaluateGlobal inp E)) = None) \<and>
   (snd (collect inp E) \<noteq> [] \<longrightarrow>
      (\<exists>top\<in>set (snd (collect inp E)). \<exists>n.
         toast (fst (evaluateGlobal inp E)) = None \<and>
         modal (fst (evaluateGlobal inp E)) = Some n \<and>
         text n = text top \<and> eventKey n = eventKey top \<and>
         (\<forall>c\<in>set (snd (collect inp E)).
            stage c < stage top \<or>
            (stage c = stage top \<and> orElse (seenSinceMs c) 0 \<le> orElse (seenSinceMs top) 0))))"
proof (cases "snd (collect inp E) = []")
  case True
  then show ?thesis by (simp add: evaluateGlobal_fst arbitrate_none)
next
  case False
  let ?cs = "snd (collect inp E)"
  let ?L = "detectLang (langMode inp) (navigatorJa inp)"
  from arbitrate_modal[OF False, of ?L] obtain n where
    n: "toast (arbitrate ?L ?cs) = None" "modal (arbitrate ?L ?cs) = Some n"
       "text n = text (hd (sortCands ?cs))" "eventKey n = eventKey (hd (sortCands ?cs))"
    by blast
  from hd_sortCands_best[OF False] have
    b: "hd (sortCands ?cs) \<in> set ?cs" "\<forall>c\<in>set ?cs. cmp (hd (sortCands ?cs)) c \<le> 0"
    by simp_all
  from b(2) have "\<forall>c\<in>set ?cs. stage c < stage (hd (sortCands ?cs)) \<or>
      (stage c = stage (hd (sortCands ?cs)) \<and>
       orElse (seenSinceMs c) 0 \<le> orElse (seenSinceMs (hd (sortCands ?cs))) 0)"
    by (simp add: cmp_le_iff)
  with n b(1) False show ?thesis
    unfolding evaluateGlobal_fst by auto
qed

lemmas run_defs =
  evaluateGlobal_def collect_def collectOver_def applyAck_def evalDevice_view devStore_def devCands_def
  offlineEntry_def offlineCands_def offlineActive_def offlineShown_def offlineCandidate_def
  anomalyEntry_def anomalyCands_def metricActive_def
  offlineKey_def anomalyKey_def displayName_def buildOfflineEvent_def js_rem_def
  seen_def entryOr_def fresh_event_def cleared_def isSnoozed_def truthy_def orElse_def
  arbitrate_def sortCands_def cmp_def detectLang_def acknowledgeEvent_def getOrInitEvent_def mutate_def
  mkDevice_def dashboardInput_def Let_def


theorem evaluateGlobal_single_top_witness:
  "snd (collect (dashboardInput [mkDevice ''A'' [] (Some 1000000), mkDevice ''B'' [] None] 1060000 None) Map.empty) \<noteq> [] \<and>
   toast (fst (evaluateGlobal (dashboardInput [mkDevice ''A'' [] (Some 1000000), mkDevice ''B'' [] None] 1060000 None) Map.empty)) = None \<and>
   modal (fst (evaluateGlobal (dashboardInput [mkDevice ''A'' [] (Some 1000000), mkDevice ''B'' [] None] 1060000 None) Map.empty)) =
     Some \<lparr>level = ''modal'', text = OFFLINE_ALERT ''en'' ''B'' 5 0, eventKey = ''B:offline''\<rparr>"
  using evaluateGlobal_single_top[of "dashboardInput [mkDevice ''A'' [] (Some 1000000), mkDevice ''B'' [] None] 1060000 None" Map.empty]
  by (simp add: run_defs)

section \<open>The loop over the devices\<close>

lemma storeAfter_Nil: "storeAfter inp E [] = E"
  by (simp add: storeAfter_def)

lemma storeAfter_Cons: "storeAfter inp E (d # ds) = storeAfter inp (devStore inp d E) ds"
  by (simp add: storeAfter_def)

lemma storeAfter_snoc: "storeAfter inp E (ds @ [d]) = devStore inp d (storeAfter inp E ds)"
  by (simp add: storeAfter_def)

lemma foldl_evalDevice_view:
  "foldl (evalDevice inp L) (E, cs) ds = (storeAfter inp E ds, cs @ candsFrom inp L E ds)"
  by (induction ds arbitrary: E cs) (simp_all add: storeAfter_Nil storeAfter_Cons evalDevice_view)

lemma collectOver_view:
  "collectOver inp ds E =
     (storeAfter inp (applyAck inp E) ds,
      candsFrom inp (detectLang (langMode inp) (navigatorJa inp)) (applyAck inp E) ds)"
  by (simp add: collectOver_def foldl_evalDevice_view)

lemma candsFrom_append:
  "candsFrom inp L E (ds @ ds') = candsFrom inp L E ds @ candsFrom inp L (storeAfter inp E ds) ds'"
  by (induction ds arbitrary: E) (simp_all add: storeAfter_Nil storeAfter_Cons)

subsection \<open>Fields of the entries\<close>

lemma seen_fields:
  "lastAckMs (seen now st) = lastAckMs st" "lastFiredStage (seen now st) = lastFiredStage st"
  "lastSeenMs (seen now st) = Some now"
  "firstSeenMs (seen now st) = (if truthy (firstSeenMs st) then firstSeenMs st else Some now)"
  by (simp_all add: seen_def Let_def)

lemma cleared_fields:
  "lastAckMs (cleared st) = lastAckMs st" "lastFiredStage (cleared st) = 0"
  "lastSeenMs (cleared st) = None" "firstSeenMs (cleared st) = None"
  by (simp_all add: cleared_def)

lemma offlineEntry_ack: "lastAckMs (entryOr (offlineEntry inp d e)) = lastAckMs (entryOr e)"
  by (cases e) (simp_all add: offlineEntry_def entryOr_def seen_fields cleared_fields)

lemma anomalyEntry_ack: "lastAckMs (entryOr (anomalyEntry inp d m e)) = lastAckMs (entryOr e)"
  by (cases e) (simp_all add: anomalyEntry_def entryOr_def seen_fields cleared_fields Let_def)

lemma devStore_ack: "lastAckMs (entryOr (devStore inp d E k)) = lastAckMs (entryOr (E k))"
  by (simp add: devStore_def offlineEntry_ack anomalyEntry_ack)

lemma storeAfter_ack: "lastAckMs (entryOr (storeAfter inp E ds k)) = lastAckMs (entryOr (E k))"
  by (induction ds arbitrary: E) (simp_all add: storeAfter_Nil storeAfter_Cons devStore_ack)

lemma isSnoozed_seen: "isSnoozed (seen now st) t sn = isSnoozed st t sn"
  by (simp add: isSnoozed_def seen_fields)

lemma isSnoozed_ack_cong: "lastAckMs st = lastAckMs st' \<Longrightarrow> isSnoozed st t sn = isSnoozed st' t sn"
  by (simp add: isSnoozed_def)

subsection \<open>A candidate comes from a condition that is not snoozed\<close>

lemma offlineCands_key:
  "c \<in> set (offlineCands inp L d e) \<Longrightarrow>
     eventKey c = offlineKey d \<and> offlineActive inp d \<and>
     \<not> isSnoozed (entryOr e) (nowMs inp) (modalSnoozeMs inp)"
  by (auto simp: offlineCands_def offlineShown_def offlineCandidate_def isSnoozed_seen split: if_splits)

lemma anomalyCands_key:
  "c \<in> set (anomalyCands inp L d m e) \<Longrightarrow>
     eventKey c = anomalyKey d m \<and> metricActive d m \<and>
     \<not> isSnoozed (entryOr e) (nowMs inp) (modalSnoozeMs inp)"
  by (auto simp: anomalyCands_def anomalyShown_def isSnoozed_seen split: if_splits)

lemma devCands_not_snoozed:
  "c \<in> set (devCands inp L d E) \<Longrightarrow>
     \<not> isSnoozed (entryOr (E (eventKey c))) (nowMs inp) (modalSnoozeMs inp)"
  by (auto simp: devCands_def dest: offlineCands_key anomalyCands_key split: if_splits)

lemma candsFrom_not_snoozed:
  "c \<in> set (candsFrom inp L E ds) \<Longrightarrow>
     \<not> isSnoozed (entryOr (E (eventKey c))) (nowMs inp) (modalSnoozeMs inp)"
proof (induction ds arbitrary: E)
  case Nil
  then show ?case by simp
next
  case (Cons d ds)
  from Cons.prems consider "c \<in> set (devCands inp L d E)"
    | "c \<in> set (candsFrom inp L (devStore inp d E) ds)" by auto
  then show ?case
  proof cases
    case 1
    then show ?thesis by (rule devCands_not_snoozed)
  next
    case 2
    from Cons.IH[OF 2] show ?thesis
      using isSnoozed_ack_cong[OF devStore_ack] by blast
  qed
qed

section \<open>Tie-break among candidates of equal stage\<close>

text \<open>
  Claim C2 says that among candidates of equal stage the one with the smallest
  \<open>seenSinceMs\<close> is emitted. The comparator sorts \<open>seenSinceMs\<close> descending, so the
  newest wins. Device A is first seen offline at 1000, device B at 2000; at 2000 both are
  stage 2 candidates and the modal is B's.
\<close>

theorem evaluateGlobal_oldest_first_counterexample:
  "map (\<lambda>c. (eventKey c, stage c, seenSinceMs c))
     (snd (collect (dashboardInput [mkDevice ''A'' [] None, mkDevice ''B'' [] None] 2000 None)
        (snd (evaluateGlobal (dashboardInput [mkDevice ''A'' [] None] 1000 None) Map.empty))))
     = [(''A:offline'', 2, Some 1000), (''B:offline'', 2, Some 2000)] \<and>
   map_option eventKey
     (modal (fst (evaluateGlobal (dashboardInput [mkDevice ''A'' [] None, mkDevice ''B'' [] None] 2000 None)
        (snd (evaluateGlobal (dashboardInput [mkDevice ''A'' [] None] 1000 None) Map.empty)))))
     = Some ''B:offline''"
  by (simp add: run_defs)

text \<open>
  Claim C2 as amended. The emitted candidate has the highest stage; among the candidates
  of that stage it has the largest \<open>seenSinceMs || 0\<close>, and it is the first such candidate
  in the order the conditions were detected.
\<close>

theorem evaluateGlobal_tie_newest:
  assumes "snd (collect inp E) \<noteq> []"
  shows "\<exists>ys top zs n.
           snd (collect inp E) = ys @ top # zs \<and>
           modal (fst (evaluateGlobal inp E)) = Some n \<and>
           eventKey n = eventKey top \<and> text n = text top \<and>
           (\<forall>c\<in>set (ys @ zs). stage c \<le> stage top) \<and>
           (\<forall>c\<in>set zs. stage c = stage top \<longrightarrow>
              orElse (seenSinceMs c) 0 \<le> orElse (seenSinceMs top) 0) \<and>
           (\<forall>c\<in>set ys. stage c = stage top \<longrightarrow>
              orElse (seenSinceMs c) 0 < orElse (seenSinceMs top) 0)"
proof -
  let ?cs = "snd (collect inp E)"
  let ?top = "hd (sortCands ?cs)"
  let ?L = "detectLang (langMode inp) (navigatorJa inp)"
  from hd_sortCands_first[OF assms] obtain ys zs where
    split: "?cs = ys @ ?top # zs" and before: "\<forall>y\<in>set ys. cmp ?top y < 0" by blast
  from hd_sortCands_best[OF assms] have best: "\<forall>c\<in>set ?cs. cmp ?top c \<le> 0" by simp
  from arbitrate_modal[OF assms, of ?L] obtain n where
    n: "modal (arbitrate ?L ?cs) = Some n" "text n = text ?top" "eventKey n = eventKey ?top"
    by blast
  have mem: "c \<in> set ?cs" if "c \<in> set ys \<or> c \<in> set zs" for c
    using that by (subst split) auto
  have le: "stage c \<le> stage ?top" if "c \<in> set ?cs" for c
    using best that by (force simp: cmp_le_iff)
  have 1: "\<forall>c\<in>set (ys @ zs). stage c \<le> stage ?top"
    using le mem by auto
  have 2: "\<forall>c\<in>set zs. stage c = stage ?top \<longrightarrow>
      orElse (seenSinceMs c) 0 \<le> orElse (seenSinceMs ?top) 0"
  proof (intro ballI impI)
    fix c assume "c \<in> set zs" and eq: "stage c = stage ?top"
    then have "cmp ?top c \<le> 0" using best mem by blast
    with eq show "orElse (seenSinceMs c) 0 \<le> orElse (seenSinceMs ?top) 0"
      by (simp add: cmp_le_iff)
  qed
  have 3: "\<forall>c\<in>set ys. stage c = stage ?top \<longrightarrow>
      orElse (seenSinceMs c) 0 < orElse (seenSinceMs ?top) 0"
  proof (intro ballI impI)
    fix c assume "c \<in> set ys" and eq: "stage c = stage ?top"
    then have "cmp ?top c < 0" using before by blast
    with eq show "orElse (seenSinceMs c) 0 < orElse (seenSinceMs ?top) 0"
      by (simp add: cmp_less_iff)
  qed
  from split n 1 2 3 show ?thesis
    unfolding evaluateGlobal_fst by blast
qed

lemma tie_cands:
  "snd (collect tieInput tieStore) =
     [\<lparr>level = ''warn'', text = OFFLINE_WARN ''en'' ''D'' 60, eventKey = ''D:offline'', stage = 1,
       candDeviceName = ''D'', metricName = ''offline'', seenSinceMs = Some 200000\<rparr>,
      \<lparr>level = ''modal'', text = OFFLINE_ALERT ''en'' ''A'' 5 0, eventKey = ''A:offline'', stage = 2,
       candDeviceName = ''A'', metricName = ''offline'', seenSinceMs = Some 100000\<rparr>,
      \<lparr>level = ''modal'', text = OFFLINE_ALERT ''en'' ''B'' 5 0, eventKey = ''B:offline'', stage = 2,
       candDeviceName = ''B'', metricName = ''offline'', seenSinceMs = Some 200000\<rparr>,
      \<lparr>level = ''modal'', text = OFFLINE_ALERT ''en'' ''C'' 5 0, eventKey = ''C:offline'', stage = 2,
       candDeviceName = ''C'', metricName = ''offline'', seenSinceMs = Some 200000\<rparr>]"
  by (simp add: tieInput_def tieStore_def run_defs)

text \<open>
  With the four candidates D (stage 1), A (stage 2, since 100000), B and C (stage 2, since
  200000) in this order, the emitted candidate is B: D and A come before it, C after it.
\<close>

theorem evaluateGlobal_tie_newest_witness:
  "map (\<lambda>c. (eventKey c, stage c, seenSinceMs c)) (snd (collect tieInput tieStore)) =
     [(''D:offline'', 1, Some 200000), (''A:offline'', 2, Some 100000),
      (''B:offline'', 2, Some 200000), (''C:offline'', 2, Some 200000)] \<and>
   (\<exists>ys top zs n.
      snd (collect tieInput tieStore) = ys @ top # zs \<and>
      modal (fst (evaluateGlobal tieInput tieStore)) = Some n \<and>
      eventKey n = eventKey top \<and> text n = text top \<and>
      map eventKey ys = [''D:offline'', ''A:offline''] \<and> eventKey top = ''B:offline'' \<and>
      map eventKey zs = [''C:offline''])"
proof -
  have ne: "snd (collect tieInput tieStore) \<noteq> []" by (simp add: tie_cands)
  from evaluateGlobal_tie_newest[OF ne] obtain ys top zs n where
    sp: "snd (collect tieInput tieStore) = ys @ top # zs"
    and n: "modal (fst (evaluateGlobal tieInput tieStore)) = Some n"
      "eventKey n = eventKey top" "text n = text top"
    and hi: "\<forall>c\<in>set (ys @ zs). stage c \<le> stage top"
    and after: "\<forall>c\<in>set zs. stage c = stage top \<longrightarrow>
              orElse (seenSinceMs c) 0 \<le> orElse (seenSinceMs top) 0"
    and before: "\<forall>c\<in>set ys. stage c = stage top \<longrightarrow>
              orElse (seenSinceMs c) 0 < orElse (seenSinceMs top) 0"
    by blast
  from sp hi after before
  have keys: "map eventKey ys = [''D:offline'', ''A:offline''] \<and> eventKey top = ''B:offline'' \<and>
      map eventKey zs = [''C:offline'']"
    unfolding tie_cands
    by (auto simp: Cons_eq_append_conv orElse_def truthy_def)
  have m: "map (\<lambda>c. (eventKey c, stage c, seenSinceMs c)) (snd (collect tieInput tieStore)) =
     [(''D:offline'', 1, Some 200000), (''A:offline'', 2, Some 100000),
      (''B:offline'', 2, Some 200000), (''C:offline'', 2, Some 200000)]"
    by (simp add: tie_cands)
  have ex: "\<exists>ys top zs n.
      snd (collect tieInput tieStore) = ys @ top # zs \<and>
      modal (fst (evaluateGlobal tieInput tieStore)) = Some n \<and>
      eventKey n = eventKey top \<and> text n = text top \<and>
      map eventKey ys = [''D:offline'', ''A:offline''] \<and> eventKey top = ''B:offline'' \<and>
      map eventKey zs = [''C:offline'']"
    apply (rule exI[of _ ys])
    apply (rule exI[of _ top])
    apply (rule exI[of _ zs])
    apply (rule exI[of _ n])
    apply (simp add: sp n keys)
    done
  show ?thesis by (rule conjI[OF m ex])
qed

section \<open>Presentation of a stage 1 top candidate\<close>

text \<open>
  Claim C3 says a stage 1 top candidate is returned as a toast. For a device whose last
  data is 60 s old (warning at 45 s, modal at 5 min) the only candidate has stage 1, and
  \<open>evaluateGlobal\<close> returns it as a modal of level \<open>modal\<close> with no toast; the ending of
  the older copy returns the same candidate as a toast of level \<open>warn\<close>.
\<close>

theorem evaluateGlobal_stage1_modal:
  "map stage (snd (collect (dashboardInput [mkDevice ''A'' [] (Some 1000000)] 1060000 None) Map.empty)) = [1] \<and>
   fst (evaluateGlobal (dashboardInput [mkDevice ''A'' [] (Some 1000000)] 1060000 None) Map.empty) =
     \<lparr>toast = None,
      modal = Some \<lparr>level = ''modal'', text = OFFLINE_WARN ''en'' ''A'' 60, eventKey = ''A:offline''\<rparr>,
      lang = ''en''\<rparr> \<and>
   arbitrate_part000 ''en''
     (snd (collect (dashboardInput [mkDevice ''A'' [] (Some 1000000)] 1060000 None) Map.empty)) =
     \<lparr>toast = Some \<lparr>level = ''warn'', text = OFFLINE_WARN ''en'' ''A'' 60, eventKey = ''A:offline''\<rparr>,
      modal = None, lang = ''en''\<rparr>"
  by (simp add: run_defs arbitrate_part000_def)

section \<open>Devices with distinct ids touch distinct keys\<close>

lemma owns_iff: "owns d k \<longleftrightarrow> k = offlineKey d \<or> (\<exists>m. k = anomalyKey d m)"
proof -
  have "(\<exists>m. k = anomalyKey d m) \<longleftrightarrow> k = anomalyKey d Temperature \<or> k = anomalyKey d Humidity
               \<or> k = anomalyKey d Pressure \<or> k = anomalyKey d Light"
    by (metis metric.exhaust)
  then show ?thesis by (auto simp: owns_def)
qed

lemma owns_offline: "owns d' (offlineKey d) \<longleftrightarrow> deviceId d' = deviceId d"
  by (auto simp: owns_iff offlineKey_inj offline_neq_anomaly)

lemma owns_anomaly: "owns d' (anomalyKey d m) \<longleftrightarrow> deviceId d' = deviceId d"
  by (auto simp: owns_iff anomalyKey_inj anomaly_neq_offline)

lemma owns_same_id: "owns d k \<Longrightarrow> owns d' k \<Longrightarrow> deviceId d = deviceId d'"
  by (auto simp: owns_iff offlineKey_inj anomalyKey_inj offline_neq_anomaly anomaly_neq_offline)

lemma devStore_not_owned:
  assumes "\<not> owns d k"
  shows "devStore inp d E k = E k"
proof -
  from assms have "k \<noteq> offlineKey d" "k \<noteq> anomalyKey d Temperature" "k \<noteq> anomalyKey d Humidity"
    "k \<noteq> anomalyKey d Pressure" "k \<noteq> anomalyKey d Light"
    by (simp_all add: owns_def)
  then show ?thesis by (simp add: devStore_def)
qed

lemma devStore_offline: "devStore inp d E (offlineKey d) = offlineEntry inp d (E (offlineKey d))"
  by (simp add: devStore_def)

lemma devStore_anomaly:
  "devStore inp d E (anomalyKey d m) =
     (if truthy (lastDataMs d) then anomalyEntry inp d m (E (anomalyKey d m)) else E (anomalyKey d m))"
  by (cases m) (simp_all add: devStore_def anomaly_neq_offline anomalyKey_inj)

lemma devStore_cong:
  assumes "E k = E' k"
  shows "devStore inp d E k = devStore inp d E' k"
proof (cases "owns d k")
  case False
  then show ?thesis using assms by (simp add: devStore_not_owned)
next
  case True
  then consider "k = offlineKey d" | m where "k = anomalyKey d m" by (auto simp: owns_iff)
  then show ?thesis
  proof cases
    case 1
    then show ?thesis using assms by (simp add: devStore_offline)
  next
    case 2
    then show ?thesis using assms by (simp add: devStore_anomaly)
  qed
qed

lemma devCands_cong:
  assumes "\<And>k. owns d k \<Longrightarrow> E k = E' k"
  shows "devCands inp L d E = devCands inp L d E'"
proof -
  have o: "E (offlineKey d) = E' (offlineKey d)"
    by (rule assms) (simp add: owns_iff)
  have a: "E (anomalyKey d m) = E' (anomalyKey d m)" for m
    by (rule assms) (auto simp: owns_iff)
  show ?thesis by (simp only: devCands_def o a)
qed

lemma storeAfter_unowned: "(\<And>d. d \<in> set ds \<Longrightarrow> \<not> owns d k) \<Longrightarrow> storeAfter inp E ds k = E k"
  by (induction ds arbitrary: E) (simp_all add: storeAfter_Nil storeAfter_Cons devStore_not_owned)

lemma storeAfter_cong: "E k = E' k \<Longrightarrow> storeAfter inp E ds k = storeAfter inp E' ds k"
proof (induction ds arbitrary: E E')
  case Nil
  then show ?case by (simp add: storeAfter_Nil)
next
  case (Cons a ds)
  from Cons.prems have "devStore inp a E k = devStore inp a E' k" by (rule devStore_cong)
  then show ?case unfolding storeAfter_Cons by (rule Cons.IH)
qed

lemma storeAfter_owned:
  assumes "distinct (map deviceId ds)" "d \<in> set ds" "owns d k"
  shows "storeAfter inp E ds k = devStore inp d E k"
  using assms
proof (induction ds arbitrary: E)
  case Nil
  then show ?case by simp
next
  case (Cons a ds)
  show ?case
  proof (cases "a = d")
    case True
    have "\<not> owns d' k" if "d' \<in> set ds" for d'
    proof
      assume "owns d' k"
      with Cons.prems(3) have "deviceId d = deviceId d'" using owns_same_id by blast
      moreover from Cons.prems(1) True that have "deviceId d \<noteq> deviceId d'" by auto
      ultimately show False by simp
    qed
    then have "storeAfter inp (devStore inp d E) ds k = devStore inp d E k"
      by (rule storeAfter_unowned)
    with True show ?thesis by (simp add: storeAfter_Cons)
  next
    case False
    with Cons.prems have din: "d \<in> set ds" and dist: "distinct (map deviceId ds)"
      and ne: "deviceId a \<noteq> deviceId d" by auto
    from ne Cons.prems(3) have "\<not> owns a k" using owns_same_id by blast
    then have same: "devStore inp a E k = E k" by (rule devStore_not_owned)
    have "storeAfter inp (devStore inp a E) ds k = devStore inp d (devStore inp a E) k"
      using Cons.IH[OF dist din Cons.prems(3)] .
    also have "\<dots> = devStore inp d E k" using same by (rule devStore_cong)
    finally show ?thesis by (simp add: storeAfter_Cons)
  qed
qed

lemma candsFrom_distinct:
  "distinct (map deviceId ds) \<Longrightarrow>
     candsFrom inp L E ds = concat (map (\<lambda>d. devCands inp L d E) ds)"
proof (induction ds arbitrary: E)
  case Nil
  then show ?case by simp
next
  case (Cons a ds)
  then have dist: "distinct (map deviceId ds)" and nin: "deviceId a \<notin> deviceId ` set ds" by auto
  have "devCands inp L d (devStore inp a E) = devCands inp L d E" if "d \<in> set ds" for d
  proof (rule devCands_cong)
    fix k assume "owns d k"
    with that nin have "\<not> owns a k" using owns_same_id by blast
    then show "devStore inp a E k = E k" by (rule devStore_not_owned)
  qed
  then have "map (\<lambda>d. devCands inp L d (devStore inp a E)) ds = map (\<lambda>d. devCands inp L d E) ds"
    by simp
  with Cons.IH[OF dist, of "devStore inp a E"] show ?case by simp
qed

lemma candsFrom_split:
  "candsFrom inp L E (ds1 @ d # ds2) =
     candsFrom inp L E ds1 @ devCands inp L d (storeAfter inp E ds1) @
     candsFrom inp L (storeAfter inp E (ds1 @ [d])) ds2"
  by (simp add: candsFrom_append storeAfter_snoc)

lemma applyAck_cases:
  "applyAck inp E k = E k \<or>
   (ackEventKey inp = Some k \<and> k \<noteq> [] \<and>
    applyAck inp E k = Some ((entryOr (E k))\<lparr>lastAckMs := Some (nowMs inp)\<rparr>))"
  by (auto simp: applyAck_def acknowledgeEvent_def mutate_def getOrInitEvent_def entryOr_def
      split: option.splits)

lemma applyAck_None: "ackEventKey inp = None \<Longrightarrow> applyAck inp E = E"
  by (simp add: applyAck_def)

lemma collect_view:
  "collect inp E =
     (storeAfter inp (applyAck inp E) (devices inp),
      candsFrom inp (detectLang (langMode inp) (navigatorJa inp)) (applyAck inp E) (devices inp))"
  by (simp add: collect_def collectOver_view)

section \<open>Acknowledgement and snooze\<close>

lemma evaluateGlobal_store:
  "snd (evaluateGlobal inp E) = storeAfter inp (applyAck inp E) (devices inp)"
  by (simp add: evaluateGlobal_snd collect_view)

lemma collect_cands:
  "snd (collect inp E) =
     candsFrom inp (detectLang (langMode inp) (navigatorJa inp)) (applyAck inp E) (devices inp)"
  by (simp add: collect_view)

lemma applyAck_other: "ackEventKey inp \<noteq> Some k \<Longrightarrow> applyAck inp E k = E k"
  using applyAck_cases[of inp E k] by auto

lemma entryOr_Some: "entryOr (Some st) = st"
  by (simp add: entryOr_def)

lemma isSnoozed_fresh: "\<not> isSnoozed fresh_event t sn"
  by (simp add: isSnoozed_def fresh_event_def truthy_def)

lemma isSnoozed_iff:
  "lastAckMs st = Some t0 \<Longrightarrow> t0 \<noteq> 0 \<Longrightarrow> isSnoozed st t sn \<longleftrightarrow> t - t0 < sn"
  by (simp add: isSnoozed_def truthy_def)

lemma snoozed_no_candidate:
  assumes "isSnoozed (entryOr (applyAck inp E k)) (nowMs inp) (modalSnoozeMs inp)"
  shows "\<forall>c\<in>set (snd (collect inp E)). eventKey c \<noteq> k"
proof
  fix c assume "c \<in> set (snd (collect inp E))"
  then have "\<not> isSnoozed (entryOr (applyAck inp E (eventKey c))) (nowMs inp) (modalSnoozeMs inp)"
    unfolding collect_cands by (rule candsFrom_not_snoozed)
  with assms show "eventKey c \<noteq> k" by auto
qed

lemma evaluateGlobal_keeps_ack:
  "ackEventKey inp \<noteq> Some k \<Longrightarrow>
     lastAckMs (entryOr (snd (evaluateGlobal inp E) k)) = lastAckMs (entryOr (E k))"
  by (simp add: evaluateGlobal_store storeAfter_ack applyAck_other)

lemma cycles_keep_ack:
  "(\<And>i. i \<in> set inps \<Longrightarrow> ackEventKey i \<noteq> Some k) \<Longrightarrow>
     lastAckMs (entryOr (cycles inps E k)) = lastAckMs (entryOr (E k))"
  by (induction inps arbitrary: E) (simp_all add: evaluateGlobal_keeps_ack)

lemma acknowledgeEvent_fresh:
  "E k = None \<Longrightarrow> k \<noteq> [] \<Longrightarrow> acknowledgeEvent k t0 E k = Some (fresh_event\<lparr>lastAckMs := Some t0\<rparr>)"
  by (simp add: acknowledgeEvent_def mutate_def getOrInitEvent_def)

text \<open>
  Claim C10 as amended. Acknowledging a key that has no entry (a non-empty key, at a time other than
  0, which the source reads as "never acknowledged") creates a fresh entry with only
  \<open>lastAckMs\<close> set. In every later cycle that does not acknowledge the key again and is
  within the snooze time of the acknowledgement, no candidate is produced for the key,
  whatever the devices report.
\<close>

theorem ack_of_unseen_key_snoozes:
  assumes "E k = None" "k \<noteq> []" "t0 \<noteq> 0"
  shows "acknowledgeEvent k t0 E k = Some (fresh_event\<lparr>lastAckMs := Some t0\<rparr>) \<and>
         (\<forall>(inps::input list) (inp::input).
            (\<forall>i\<in>set (inps @ [inp]). ackEventKey i \<noteq> Some k) \<and>
            nowMs inp - t0 < modalSnoozeMs inp \<longrightarrow>
            (\<forall>c\<in>set (snd (collect inp (cycles inps (acknowledgeEvent k t0 E)))). eventKey c \<noteq> k))"
proof (intro conjI allI impI)
  show f: "acknowledgeEvent k t0 E k = Some (fresh_event\<lparr>lastAckMs := Some t0\<rparr>)"
    using assms by (simp add: acknowledgeEvent_fresh)
  fix inps :: "input list" and inp :: input
  assume h: "(\<forall>i\<in>set (inps @ [inp]). ackEventKey i \<noteq> Some k) \<and> nowMs inp - t0 < modalSnoozeMs inp"
  let ?E = "cycles inps (acknowledgeEvent k t0 E)"
  from h have "lastAckMs (entryOr (?E k)) = lastAckMs (entryOr (acknowledgeEvent k t0 E k))"
    by (intro cycles_keep_ack) simp
  also have "\<dots> = Some t0" by (simp add: f entryOr_def)
  finally have a: "lastAckMs (entryOr (?E k)) = Some t0" .
  from h have "applyAck inp ?E k = ?E k" by (intro applyAck_other) simp
  with a assms(3) h have "isSnoozed (entryOr (applyAck inp ?E k)) (nowMs inp) (modalSnoozeMs inp)"
    by (simp add: isSnoozed_iff)
  then show "\<forall>c\<in>set (snd (collect inp ?E)). eventKey c \<noteq> k"
    by (rule snoozed_no_candidate)
qed

lemma seen_first_Some: "firstSeenMs (seen now st) \<noteq> None"
  by (auto simp: seen_fields truthy_def split: option.splits)

text \<open>
  Claim C7. A device of the snapshot whose last-data time is null, and whose offline event
  is not snoozed, yields a candidate for its offline key at stage 2, level \<open>modal\<close>, whose
  text is the offline alert built from the age \<open>alertMs + 1\<close>.
\<close>

theorem unknown_device_modal:
  assumes "d \<in> set (devices inp)" "lastDataMs d = None"
    and "\<forall>st. applyAck inp E (offlineKey d) = Some st \<longrightarrow>
            \<not> isSnoozed st (nowMs inp) (modalSnoozeMs inp)"
  shows "\<exists>c\<in>set (snd (collect inp E)).
           eventKey c = offlineKey d \<and> stage c = 2 \<and> level c = ''modal'' \<and>
           metricName c = ''offline'' \<and> seenSinceMs c \<noteq> None \<and>
           text c = snd (buildOfflineEvent (displayName d) (alertMs inp + 1) (alertMs inp)
                      (detectLang (langMode inp) (navigatorJa inp))) \<and>
           text c = OFFLINE_ALERT (detectLang (langMode inp) (navigatorJa inp)) (displayName d)
                      ((alertMs inp + 1) div 1000 div 60) (js_rem ((alertMs inp + 1) div 1000) 60)"
proof -
  let ?L = "detectLang (langMode inp) (navigatorJa inp)"
  let ?E0 = "applyAck inp E"
  let ?k = "offlineKey d"
  from assms(1) obtain ds1 ds2 where sp: "devices inp = ds1 @ d # ds2"
    by (auto dest: split_list)
  let ?E1 = "storeAfter inp ?E0 ds1"
  have ns0: "\<not> isSnoozed (entryOr (?E0 ?k)) (nowMs inp) (modalSnoozeMs inp)"
    using assms(3) by (cases "?E0 ?k") (simp_all add: entryOr_def isSnoozed_fresh)
  have "lastAckMs (entryOr (?E1 ?k)) = lastAckMs (entryOr (?E0 ?k))" by (rule storeAfter_ack)
  with ns0 have ns: "\<not> isSnoozed (entryOr (?E1 ?k)) (nowMs inp) (modalSnoozeMs inp)"
    using isSnoozed_ack_cong by blast
  let ?c = "offlineShown inp ?L d (seen (nowMs inp) (entryOr (?E1 ?k)))"
  have act: "offlineActive inp d" using assms(2) by (simp add: offlineActive_def truthy_def)
  have "offlineCands inp ?L d (?E1 ?k) = [?c]"
    using act ns by (simp add: offlineCands_def isSnoozed_seen)
  then have "?c \<in> set (devCands inp ?L d ?E1)" by (simp add: devCands_def)
  then have mem: "?c \<in> set (snd (collect inp E))"
    by (simp add: collect_cands sp candsFrom_split)
  have props: "eventKey ?c = ?k \<and> stage ?c = 2 \<and> level ?c = ''modal'' \<and>
      metricName ?c = ''offline'' \<and> seenSinceMs ?c \<noteq> None \<and>
      text ?c = snd (buildOfflineEvent (displayName d) (alertMs inp + 1) (alertMs inp) ?L)"
    using assms(2)
    by (simp add: offlineShown_def offlineCandidate_def truthy_def seen_first_Some)
  have "snd (buildOfflineEvent (displayName d) (alertMs inp + 1) (alertMs inp) ?L) =
      OFFLINE_ALERT ?L (displayName d) ((alertMs inp + 1) div 1000 div 60)
        (js_rem ((alertMs inp + 1) div 1000) 60)"
    by (simp add: buildOfflineEvent_def Let_def)
  with props mem show ?thesis by metis
qed

theorem unknown_device_modal_witness:
  "mkDevice ''A'' [] None \<in> set (devices (dashboardInput [mkDevice ''A'' [] None] 1000 None)) \<and>
   lastDataMs (mkDevice ''A'' [] None) = None \<and>
   applyAck (dashboardInput [mkDevice ''A'' [] None] 1000 None) Map.empty ''A:offline'' = None \<and>
   (\<exists>c\<in>set (snd (collect (dashboardInput [mkDevice ''A'' [] None] 1000 None) Map.empty)).
      eventKey c = ''A:offline'' \<and> stage c = 2 \<and> level c = ''modal'' \<and>
      text c = OFFLINE_ALERT ''en'' ''A'' 5 0)"
  using unknown_device_modal[of "mkDevice ''A'' [] None" "dashboardInput [mkDevice ''A'' [] None] 1000 None" Map.empty]
  by (simp add: run_defs)

theorem ack_of_unseen_key_snoozes_witness:
  "(Map.empty :: events) ''A:offline'' = None \<and> ''A:offline'' \<noteq> [] \<and> (1000::int) \<noteq> 0 \<and>
   acknowledgeEvent ''A:offline'' 1000 Map.empty ''A:offline'' = Some (fresh_event\<lparr>lastAckMs := Some 1000\<rparr>) \<and>
   2000 - 1000 < modalSnoozeMs (dashboardInput [mkDevice ''A'' [] None] 2000 None) \<and>
   snd (collect (dashboardInput [mkDevice ''A'' [] None] 2000 None)
          (cycles [] (acknowledgeEvent ''A:offline'' 1000 Map.empty))) = [] \<and>
   snd (collect (dashboardInput [mkDevice ''A'' [] None] 2000 None) Map.empty) \<noteq> []"
proof -
  have h: "(Map.empty :: events) ''A:offline'' = None" "''A:offline'' \<noteq> []" "(1000::int) \<noteq> 0"
    by simp_all
  note t = ack_of_unseen_key_snoozes[OF h]
  from t have 1: "acknowledgeEvent ''A:offline'' 1000 Map.empty ''A:offline'' =
      Some (fresh_event\<lparr>lastAckMs := Some 1000\<rparr>)" by blast
  from t[THEN conjunct2, THEN spec[where x="[]"],
      THEN spec[where x="dashboardInput [mkDevice ''A'' [] None] 2000 None"]]
  have 2: "\<forall>c\<in>set (snd (collect (dashboardInput [mkDevice ''A'' [] None] 2000 None)
          (cycles [] (acknowledgeEvent ''A:offline'' 1000 Map.empty)))). eventKey c \<noteq> ''A:offline''"
    by (simp add: dashboardInput_def)
  have 3: "\<forall>c\<in>set (snd (collect (dashboardInput [mkDevice ''A'' [] None] 2000 None) E)). eventKey c = ''A:offline''" for E
    by (simp add: collect_cands dashboardInput_def mkDevice_def devCands_def offlineCands_def
        offlineShown_def offlineCandidate_def offlineKey_def truthy_def)
  from 2 3 have 4: "snd (collect (dashboardInput [mkDevice ''A'' [] None] 2000 None)
          (cycles [] (acknowledgeEvent ''A:offline'' 1000 Map.empty))) = []"
    by (metis list.set_intros(1) neq_Nil_conv)
  have 5: "snd (collect (dashboardInput [mkDevice ''A'' [] None] 2000 None) Map.empty) \<noteq> []"
    by (simp add: run_defs)
  from 1 4 5 show ?thesis by (simp add: dashboardInput_def)
qed

section \<open>The recorded stage is a floor\<close>

lemma offlineEntry_floor:
  "\<exists>st'. offlineEntry inp d (Some st) = Some st' \<and>
     (lastFiredStage st \<le> lastFiredStage st' \<or>
      (firstSeenMs st' = None \<and> lastSeenMs st' = None \<and> lastFiredStage st' = 0))"
  by (simp add: offlineEntry_def entryOr_def seen_fields cleared_fields)

lemma anomalyEntry_floor:
  "\<exists>st'. anomalyEntry inp d m (Some st) = Some st' \<and>
     (lastFiredStage st \<le> lastFiredStage st' \<or>
      (firstSeenMs st' = None \<and> lastSeenMs st' = None \<and> lastFiredStage st' = 0))"
  by (simp add: anomalyEntry_def entryOr_def seen_fields cleared_fields Let_def)

lemma devStore_floor:
  assumes "E k = Some st"
  shows "\<exists>st'. devStore inp d E k = Some st' \<and>
     (lastFiredStage st \<le> lastFiredStage st' \<or>
      (firstSeenMs st' = None \<and> lastSeenMs st' = None \<and> lastFiredStage st' = 0))"
proof (cases "owns d k")
  case False
  then show ?thesis using assms by (simp add: devStore_not_owned)
next
  case True
  then consider "k = offlineKey d" | m where "k = anomalyKey d m" by (auto simp: owns_iff)
  then show ?thesis
  proof cases
    case 1
    then show ?thesis using assms offlineEntry_floor[of inp d st] by (simp add: devStore_offline)
  next
    case 2
    then show ?thesis using assms anomalyEntry_floor[of inp d m st] by (simp add: devStore_anomaly)
  qed
qed

lemma applyAck_floor:
  assumes "E k = Some st"
  shows "\<exists>st'. applyAck inp E k = Some st' \<and> lastFiredStage st' = lastFiredStage st \<and>
           firstSeenMs st' = firstSeenMs st \<and> lastSeenMs st' = lastSeenMs st"
  using assms applyAck_cases[of inp E k] by (auto simp: entryOr_def)

lemma storeAfter_floor:
  assumes "E k = Some st"
  shows "\<exists>st'. storeAfter inp E ds k = Some st' \<and>
     (lastFiredStage st \<le> lastFiredStage st' \<or>
      (\<exists>ds1 ds2 c. ds = ds1 @ ds2 \<and> storeAfter inp E ds1 k = Some c \<and>
         firstSeenMs c = None \<and> lastSeenMs c = None \<and> lastFiredStage c = 0))"
proof (induction ds rule: rev_induct)
  case Nil
  then show ?case using assms by (simp add: storeAfter_Nil)
next
  case (snoc d ds)
  then obtain s1 where s1: "storeAfter inp E ds k = Some s1"
    and alt: "lastFiredStage st \<le> lastFiredStage s1 \<or>
      (\<exists>ds1 ds2 c. ds = ds1 @ ds2 \<and> storeAfter inp E ds1 k = Some c \<and>
         firstSeenMs c = None \<and> lastSeenMs c = None \<and> lastFiredStage c = 0)"
    by blast
  from devStore_floor[where E="storeAfter inp E ds" and k=k and st=s1 and inp=inp and d=d, OF s1] obtain s2 where
    s2: "storeAfter inp E (ds @ [d]) k = Some s2"
    and step: "lastFiredStage s1 \<le> lastFiredStage s2 \<or>
      (firstSeenMs s2 = None \<and> lastSeenMs s2 = None \<and> lastFiredStage s2 = 0)"
    by (auto simp: storeAfter_snoc)
  from alt show ?case
  proof
    assume le: "lastFiredStage st \<le> lastFiredStage s1"
    from step show ?thesis
    proof
      assume "lastFiredStage s1 \<le> lastFiredStage s2"
      with le s2 show ?thesis by auto
    next
      assume "firstSeenMs s2 = None \<and> lastSeenMs s2 = None \<and> lastFiredStage s2 = 0"
      with s2 have "ds @ [d] = (ds @ [d]) @ [] \<and> storeAfter inp E (ds @ [d]) k = Some s2 \<and>
         firstSeenMs s2 = None \<and> lastSeenMs s2 = None \<and> lastFiredStage s2 = 0" by simp
      with s2 show ?thesis by blast
    qed
  next
    assume "\<exists>ds1 ds2 c. ds = ds1 @ ds2 \<and> storeAfter inp E ds1 k = Some c \<and>
         firstSeenMs c = None \<and> lastSeenMs c = None \<and> lastFiredStage c = 0"
    then obtain ds1 ds2 c where "ds = ds1 @ ds2" and c: "storeAfter inp E ds1 k = Some c \<and>
         firstSeenMs c = None \<and> lastSeenMs c = None \<and> lastFiredStage c = 0" by blast
    then have "ds @ [d] = ds1 @ (ds2 @ [d])" by simp
    with c s2 show ?thesis by blast
  qed
qed

text \<open>
  Claim C4. Across one call of \<open>evaluateGlobal\<close>, an entry of the event map stays an
  entry and its \<open>lastFiredStage\<close> does not decrease, unless at some moment of the call
  (after the ack step and some first devices of the list) the entry stood cleared:
  \<open>firstSeenMs\<close> and \<open>lastSeenMs\<close> null and \<open>lastFiredStage\<close> 0. So the stage is lowered
  only by the reset that clears the event.
\<close>

theorem lastFiredStage_floor:
  assumes "E k = Some st"
  shows "\<exists>st'. snd (evaluateGlobal inp E) k = Some st' \<and>
     (lastFiredStage st \<le> lastFiredStage st' \<or>
      (\<exists>ds1 ds2 c. devices inp = ds1 @ ds2 \<and> fst (collectOver inp ds1 E) k = Some c \<and>
         firstSeenMs c = None \<and> lastSeenMs c = None \<and> lastFiredStage c = 0))"
proof -
  from applyAck_floor[where E=E and k=k and st=st and inp=inp, OF assms] obtain s0 where
    s0: "applyAck inp E k = Some s0" "lastFiredStage s0 = lastFiredStage st" by blast
  from storeAfter_floor[where E="applyAck inp E" and k=k and st=s0 and inp=inp and ds="devices inp", OF s0(1)] s0(2)
  show ?thesis by (simp add: evaluateGlobal_store collectOver_view)
qed

section \<open>The concrete series\<close>

lemma series_spikeRows:
  "series spikeRows Temperature =
     [\<lparr>p_ms = 1000, p_v = 20\<rparr>, \<lparr>p_ms = 11000, p_v = 20\<rparr>, \<lparr>p_ms = 21000, p_v = 24\<rparr>]"
  "series spikeRows Humidity = []" "series spikeRows Pressure = []" "series spikeRows Light = []"
  by (simp_all add: spikeRows_def mkRow_def truthy_def)

lemma active_spikeRows: "active Temperature [\<lparr>p_ms = 1000, p_v = 20\<rparr>, \<lparr>p_ms = 11000, p_v = 20\<rparr>, \<lparr>p_ms = 21000, p_v = 24\<rparr>]"
  by (simp add: active_def hit_def stepOf_def lastStepDelta_def)

lemma dUse_spikeRows:
  "dUse Temperature [\<lparr>p_ms = 1000, p_v = 20\<rparr>, \<lparr>p_ms = 11000, p_v = 20\<rparr>, \<lparr>p_ms = 21000, p_v = 24\<rparr>] =
     Some \<lparr>delta_d = 4, fromMs = 11000, toMs = 21000, first_v = 20, last_v = 24\<rparr>"
  by (simp add: dUse_def hit_def stepOf_def lastStepDelta_def)

lemmas anomaly_defs = series_spikeRows active_spikeRows dUse_spikeRows anomalyShown_def anomalyStage_def
  seenFor_def quietFor_def makeSpikeText_def

lemma spike_first_cycle:
  "evaluateGlobal (dashboardInput [mkDevice ''B'' spikeRows (Some 21000)] 25000 None) Map.empty =
    (\<lparr>toast = None,
      modal = Some \<lparr>level = ''modal'', text = TOAST_SPIKE ''en'' Temperature ''B'' 4 11000 21000,
                    eventKey = ''B:Temperature:anomaly''\<rparr>,
      lang = ''en''\<rparr>,
     [''B:Temperature:anomaly'' \<mapsto>
        \<lparr>firstSeenMs = Some 25000, lastSeenMs = Some 25000, lastFiredStage = 2, lastToastMs = None,
         lastModalMs = None, lastCriticalMs = None, lastAckMs = None\<rparr>])"
  by (simp add: run_defs anomaly_defs fun_eq_iff)

section \<open>Recorded stages in the reachable event maps\<close>

lemma stageInv_fresh: "stageInv P t k fresh_event"
  by (simp add: stageInv_def fresh_event_def)

lemma stageInv_cleared: "stageInv P t k (cleared st)"
  by (simp add: stageInv_def cleared_fields)

lemma stageInv_ack: "stageInv P t k (st\<lparr>lastAckMs := a\<rparr>) = stageInv P t k st"
  by (simp add: stageInv_def)

lemma stageInv_later: "stageInv P t k st \<Longrightarrow> t \<le> t' \<Longrightarrow> stageInv P t' k st"
  by (auto simp: stageInv_def orElse_def split: option.splits if_splits)

lemma orElse_seen: "t - orElse (firstSeenMs (seen t st)) t = t - orElse (firstSeenMs st) t"
  by (auto simp: seen_fields orElse_def truthy_def split: option.splits)

lemma stageInv_seen: "stageInv P t k st \<Longrightarrow> stageInv P t k (seen t st)"
  by (simp add: stageInv_def orElse_seen seen_fields(2))

lemma stageInv_entryOr: "(\<And>st. e = Some st \<Longrightarrow> stageInv P t k st) \<Longrightarrow> stageInv P t k (entryOr e)"
  by (cases e) (simp_all add: entryOr_def stageInv_fresh)

lemma offlineEntry_inv:
  assumes "\<And>st. e = Some st \<Longrightarrow> stageInv P (nowMs inp) k st"
    and "offlineEntry inp d e = Some st'"
  shows "stageInv P (nowMs inp) k st'"
proof (cases "offlineActive inp d")
  case True
  with assms(2) have "st' = seen (nowMs inp) (entryOr e)" by (simp add: offlineEntry_def)
  then show ?thesis using stageInv_entryOr[of e P "nowMs inp" k] assms(1) stageInv_seen by blast
next
  case False
  with assms(2) obtain st where "e = Some st" "st' = cleared st" by (auto simp: offlineEntry_def)
  then show ?thesis by (simp add: stageInv_cleared)
qed

lemma anomalyKey_suffix: "\<exists>p. anomalyKey d m = p @ '':anomaly''"
proof -
  have "anomalyKey d m = (deviceId d @ '':'' @ key m) @ '':anomaly''" by (simp add: anomalyKey_def)
  then show ?thesis by blast
qed

lemma offlineKey_no_suffix: "offlineKey d \<noteq> p @ '':anomaly''"
proof
  assume "offlineKey d = p @ '':anomaly''"
  then have "rev (offlineKey d) = rev (p @ '':anomaly'')" by simp
  then show False by (simp add: offlineKey_def)
qed

lemma stageInv_raise:
  assumes "stageInv (persistWindowMs inp) (nowMs inp) (anomalyKey d m) st"
  shows "stageInv (persistWindowMs inp) (nowMs inp) (anomalyKey d m)
           (st\<lparr>lastFiredStage := anomalyStage inp st\<rparr>)"
proof -
  have sfx: "\<exists>p. anomalyKey d m = p @ '':anomaly''" by (rule anomalyKey_suffix)
  show ?thesis
  proof (cases "seenFor inp st \<ge> persistWindowMs inp")
    case True
    then have "persistWindowMs inp \<le> nowMs inp - orElse (firstSeenMs st) (nowMs inp)"
      by (simp add: seenFor_def)
    with True sfx show ?thesis
      unfolding stageInv_def by (simp add: anomalyStage_def)
  next
    case False
    with sfx show ?thesis
      unfolding stageInv_def by (simp add: anomalyStage_def)
  qed
qed

lemma anomalyEntry_inv:
  assumes "\<And>st. e = Some st \<Longrightarrow> stageInv (persistWindowMs inp) (nowMs inp) (anomalyKey d m) st"
    and "anomalyEntry inp d m e = Some st'"
  shows "stageInv (persistWindowMs inp) (nowMs inp) (anomalyKey d m) st'"
proof -
  let ?I = "stageInv (persistWindowMs inp) (nowMs inp) (anomalyKey d m)"
  have s: "?I (seen (nowMs inp) (entryOr e))"
    using stageInv_entryOr[of e "persistWindowMs inp" "nowMs inp" "anomalyKey d m"] assms(1) stageInv_seen
    by blast
  show ?thesis
  proof (cases "length (series (rows d) m) < 3")
    case True
    with assms(2) have "e = Some st'" by (simp add: anomalyEntry_def)
    then show ?thesis by (rule assms(1))
  next
    case long: False
    show ?thesis
    proof (cases "active m (series (rows d) m)")
      case False
      show ?thesis
      proof (cases e)
        case None
        with long False assms(2) show ?thesis by (simp add: anomalyEntry_def)
      next
        case (Some st)
        with long False assms(2) have "st' = cleared st \<or> st' = st"
          by (simp add: anomalyEntry_def split: if_splits)
        then show ?thesis using assms(1)[OF Some] by (auto simp: stageInv_cleared)
      qed
    next
      case True
      let ?st = "seen (nowMs inp) (entryOr e)"
      from long True assms(2) have "st' = ?st \<or> st' = ?st\<lparr>lastFiredStage := anomalyStage inp ?st\<rparr>"
        by (simp add: anomalyEntry_def Let_def split: if_splits)
      then show ?thesis using s stageInv_raise[OF s] by auto
    qed
  qed
qed

lemma devStore_inv:
  assumes "storeInv (persistWindowMs inp) (nowMs inp) E"
  shows "storeInv (persistWindowMs inp) (nowMs inp) (devStore inp d E)"
  unfolding storeInv_def
proof (intro allI impI)
  fix k st' assume h: "devStore inp d E k = Some st'"
  have old: "\<And>st. E k = Some st \<Longrightarrow> stageInv (persistWindowMs inp) (nowMs inp) k st"
    using assms by (simp add: storeInv_def)
  show "stageInv (persistWindowMs inp) (nowMs inp) k st'"
  proof (cases "owns d k")
    case False
    then show ?thesis using h old by (simp add: devStore_not_owned)
  next
    case True
    then consider "k = offlineKey d" | m where "k = anomalyKey d m" by (auto simp: owns_iff)
    then show ?thesis
    proof cases
      case 1
      with h have "offlineEntry inp d (E k) = Some st'" by (simp add: devStore_offline)
      then show ?thesis using old offlineEntry_inv by blast
    next
      case 2
      show ?thesis
      proof (cases "truthy (lastDataMs d)")
        case True
        with h 2 have "anomalyEntry inp d m (E (anomalyKey d m)) = Some st'"
          by (simp add: devStore_anomaly)
        then show ?thesis using old anomalyEntry_inv 2 by blast
      next
        case False
        with h 2 show ?thesis using old by (simp add: devStore_anomaly)
      qed
    qed
  qed
qed

lemma storeAfter_inv:
  "storeInv (persistWindowMs inp) (nowMs inp) E \<Longrightarrow>
     storeInv (persistWindowMs inp) (nowMs inp) (storeAfter inp E ds)"
  by (induction ds arbitrary: E) (simp_all add: storeAfter_Nil storeAfter_Cons devStore_inv)

lemma applyAck_inv:
  assumes "storeInv P t E"
  shows "storeInv P t (applyAck inp E)"
  unfolding storeInv_def
proof (intro allI impI)
  fix k st assume h: "applyAck inp E k = Some st"
  from applyAck_cases[of inp E k] show "stageInv P t k st"
  proof
    assume "applyAck inp E k = E k"
    with h assms show ?thesis by (simp add: storeInv_def)
  next
    assume a: "ackEventKey inp = Some k \<and> k \<noteq> [] \<and>
      applyAck inp E k = Some ((entryOr (E k))\<lparr>lastAckMs := Some (nowMs inp)\<rparr>)"
    have "stageInv P t k (entryOr (E k))"
      using assms by (intro stageInv_entryOr) (simp add: storeInv_def)
    with a h show ?thesis by (auto simp: stageInv_ack)
  qed
qed

lemma storeInv_later: "storeInv P t E \<Longrightarrow> t \<le> t' \<Longrightarrow> storeInv P t' E"
  unfolding storeInv_def using stageInv_later by blast

lemma evaluateGlobal_inv:
  assumes "storeInv (persistWindowMs inp) t E" "t \<le> nowMs inp"
  shows "storeInv (persistWindowMs inp) (nowMs inp) (snd (evaluateGlobal inp E))"
  unfolding evaluateGlobal_store
  by (intro storeAfter_inv applyAck_inv storeInv_later[OF assms])

lemma cycles_inv:
  assumes "storeInv P t E" "sorted (t # map nowMs inps)" "\<And>i. i \<in> set inps \<Longrightarrow> persistWindowMs i = P"
  shows "storeInv P (last (t # map nowMs inps)) (cycles inps E)"
  using assms
proof (induction inps arbitrary: t E)
  case Nil
  then show ?case by simp
next
  case (Cons i inps)
  have P: "persistWindowMs i = P" using Cons.prems(3) by simp
  have "storeInv P (nowMs i) (snd (evaluateGlobal i E))"
    using evaluateGlobal_inv[of i t E] Cons.prems(1,2) P by simp
  moreover have "sorted (nowMs i # map nowMs inps)" using Cons.prems(2) by simp
  ultimately have "storeInv P (last (nowMs i # map nowMs inps)) (cycles inps (snd (evaluateGlobal i E)))"
    using Cons.IH Cons.prems(3) by simp
  then show ?case by simp
qed

lemma storeInv_empty: "storeInv P t Map.empty"
  by (simp add: storeInv_def)

lemma reached_inv:
  assumes "sorted (map nowMs (inps @ [inp]))" "\<And>i. i \<in> set inps \<Longrightarrow> persistWindowMs i = P"
  shows "storeInv P (nowMs inp) (cycles inps Map.empty)"
proof (cases inps)
  case Nil
  then show ?thesis by (simp add: storeInv_empty)
next
  case (Cons i rest)
  have srt: "sorted (nowMs i # map nowMs inps)" using assms(1) Cons by (simp add: sorted_append)
  have "storeInv P (last (nowMs i # map nowMs inps)) (cycles inps Map.empty)"
    by (rule cycles_inv[OF storeInv_empty srt assms(2)])
  moreover have "last (nowMs i # map nowMs inps) \<le> nowMs inp"
    using assms(1) Cons by (auto simp: sorted_append last_map)
  ultimately show ?thesis by (rule storeInv_later)
qed

section \<open>Snooze suppresses, detection goes on\<close>

lemma conditionActive_cases:
  assumes "conditionActive inp d k"
  obtains "k = offlineKey d" "offlineActive inp d"
  | m where "k = anomalyKey d m" "truthy (lastDataMs d)" "metricActive d m"
  using assms unfolding conditionActive_def by blast

lemma conditionActive_owns: "conditionActive inp d k \<Longrightarrow> owns d k"
  by (erule conditionActive_cases) (auto simp: owns_iff)

lemma anomalyCands_in_devCands:
  "truthy (lastDataMs d) \<Longrightarrow>
     set (anomalyCands inp L d m (E (anomalyKey d m))) \<subseteq> set (devCands inp L d E)"
  by (cases m) (auto simp: devCands_def)

lemma offlineCands_in_devCands:
  "set (offlineCands inp L d (E (offlineKey d))) \<subseteq> set (devCands inp L d E)"
  by (auto simp: devCands_def)

lemma active_entry_snoozed:
  assumes "conditionActive inp d k"
    and "isSnoozed (entryOr (E k)) (nowMs inp) (modalSnoozeMs inp)"
  shows "devStore inp d E k = Some (seen (nowMs inp) (entryOr (E k)))"
  using assms(1)
proof (cases rule: conditionActive_cases)
  case 1
  then show ?thesis by (simp add: devStore_offline offlineEntry_def)
next
  case (2 m)
  with assms(2) show ?thesis
    by (simp add: devStore_anomaly anomalyEntry_def metricActive_def isSnoozed_seen Let_def)
qed

lemma offlineShown_stage: "1 \<le> stage (offlineShown inp L d st) \<and> eventKey (offlineShown inp L d st) = offlineKey d"
  by (simp add: offlineShown_def offlineCandidate_def)

lemma anomalyShown_stage:
  "stage (anomalyShown inp L d m st) = anomalyStage inp st \<and>
   eventKey (anomalyShown inp L d m st) = anomalyKey d m"
  by (simp add: anomalyShown_def anomalyStage_def)

lemma orElse_seen_eq: "orElse (firstSeenMs (seen t st)) t = orElse (firstSeenMs st) t"
  by (auto simp: seen_fields orElse_def truthy_def split: option.splits)

lemma seenFor_seen: "seenFor inp (seen (nowMs inp) st) = seenFor inp st"
  by (simp add: seenFor_def orElse_seen_eq)

lemma active_cand:
  assumes "conditionActive inp d k"
    and ns: "\<not> isSnoozed (entryOr (E k)) (nowMs inp) (modalSnoozeMs inp)"
    and inv: "stageInv (persistWindowMs inp) (nowMs inp) k (entryOr (E k))"
  shows "\<exists>c\<in>set (devCands inp L d E). eventKey c = k \<and> lastFiredStage (entryOr (E k)) \<le> stage c"
  using assms(1)
proof (cases rule: conditionActive_cases)
  case 1
  let ?c = "offlineShown inp L d (seen (nowMs inp) (entryOr (E k)))"
  from 1 ns have "?c \<in> set (offlineCands inp L d (E (offlineKey d)))"
    by (simp add: offlineCands_def isSnoozed_seen)
  then have mem: "?c \<in> set (devCands inp L d E)" using offlineCands_in_devCands by blast
  from inv 1 have "lastFiredStage (entryOr (E k)) = 0"
    using offlineKey_no_suffix by (auto simp: stageInv_def)
  with mem 1 offlineShown_stage[of inp L d "seen (nowMs inp) (entryOr (E k))"] show ?thesis
    by (intro bexI[of _ ?c]) auto
next
  case (2 m)
  let ?st = "seen (nowMs inp) (entryOr (E k))"
  let ?c = "anomalyShown inp L d m ?st"
  from 2 ns have "?c \<in> set (anomalyCands inp L d m (E (anomalyKey d m)))"
    by (simp add: anomalyCands_def isSnoozed_seen)
  then have mem: "?c \<in> set (devCands inp L d E)" using anomalyCands_in_devCands[OF 2(2)] by blast
  have sf: "seenFor inp ?st = nowMs inp - orElse (firstSeenMs (entryOr (E k))) (nowMs inp)"
    by (simp add: seenFor_def orElse_seen_eq)
  from inv consider "lastFiredStage (entryOr (E k)) = 0" | "lastFiredStage (entryOr (E k)) = 2"
    | "lastFiredStage (entryOr (E k)) = 3"
      "persistWindowMs inp \<le> nowMs inp - orElse (firstSeenMs (entryOr (E k))) (nowMs inp)"
    unfolding stageInv_def by blast
  then have "lastFiredStage (entryOr (E k)) \<le> anomalyStage inp ?st"
    by cases (simp_all add: anomalyStage_def sf)
  with mem 2 anomalyShown_stage[of inp L d m ?st] show ?thesis
    by (intro bexI[of _ ?c]) auto
qed

lemma storeAfter_uniform:
  assumes step: "\<And>d e E. d \<in> set ds \<Longrightarrow> owns d k \<Longrightarrow> Q e \<Longrightarrow> E k = e \<Longrightarrow> devStore inp d E k = g e"
    and keep: "\<And>e. Q e \<Longrightarrow> Q (g e)"
    and idem: "\<And>e. Q e \<Longrightarrow> g (g e) = g e"
    and start: "Q (E k)"
  shows "storeAfter inp E ds k = (if \<exists>d\<in>set ds. owns d k then g (E k) else E k)"
  using step start
proof (induction ds arbitrary: E)
  case Nil
  then show ?case by (simp add: storeAfter_Nil)
next
  case (Cons a ds)
  have stepds: "\<And>d e E. d \<in> set ds \<Longrightarrow> owns d k \<Longrightarrow> Q e \<Longrightarrow> E k = e \<Longrightarrow> devStore inp d E k = g e"
    using Cons.prems(1) by simp
  have unfold: "storeAfter inp E (a # ds) k = storeAfter inp (devStore inp a E) ds k"
    by (simp only: storeAfter_Cons)
  show ?case
  proof (cases "owns a k")
    case False
    then have same: "devStore inp a E k = E k" by (rule devStore_not_owned)
    with Cons.prems(2) have q: "Q (devStore inp a E k)" by (simp only:)
    have "storeAfter inp (devStore inp a E) ds k =
        (if \<exists>d\<in>set ds. owns d k then g (devStore inp a E k) else devStore inp a E k)"
      by (rule Cons.IH[where E="devStore inp a E", OF stepds q])
    also have "\<dots> = (if \<exists>d\<in>set (a # ds). owns d k then g (E k) else E k)"
      using False by (simp only: same set_simps bex_simps insert_iff) simp
    finally show ?thesis unfolding unfold .
  next
    case True
    have e1: "devStore inp a E k = g (E k)"
      by (rule Cons.prems(1)[of a "E k" E]) (simp_all add: True Cons.prems(2))
    have q: "Q (devStore inp a E k)" unfolding e1 by (rule keep[OF Cons.prems(2)])
    have "storeAfter inp (devStore inp a E) ds k =
        (if \<exists>d\<in>set ds. owns d k then g (devStore inp a E k) else devStore inp a E k)"
      by (rule Cons.IH[where E="devStore inp a E", OF stepds q])
    also have "\<dots> = g (E k)"
      unfolding e1 by (simp only: idem[OF Cons.prems(2)] if_cancel)
    also have "\<dots> = (if \<exists>d\<in>set (a # ds). owns d k then g (E k) else E k)"
      using True by simp
    finally show ?thesis unfolding unfold .
  qed
qed

lemma seen_seen: "seen t (seen t st) = seen t st"
  by (simp add: seen_def truthy_def Let_def)

lemma snooze_bookkeeping:
  assumes ack: "applyAck inp E k = Some st" and sn: "isSnoozed st (nowMs inp) (modalSnoozeMs inp)"
    and act: "conditionActiveIn inp k"
  shows "snd (evaluateGlobal inp E) k = Some (seen (nowMs inp) st)"
proof -
  let ?Q = "\<lambda>e. isSnoozed (entryOr e) (nowMs inp) (modalSnoozeMs inp)"
  let ?g = "\<lambda>e. Some (seen (nowMs inp) (entryOr e))"
  have "storeAfter inp (applyAck inp E) (devices inp) k =
      (if \<exists>d\<in>set (devices inp). owns d k then ?g (applyAck inp E k) else applyAck inp E k)"
  proof (rule storeAfter_uniform[where Q="?Q" and g="?g"])
    fix d e E'
    assume "d \<in> set (devices inp)" "owns d k" "?Q e" "E' k = e"
    then show "devStore inp d E' k = ?g e"
      using act active_entry_snoozed[of inp d k E'] by (auto simp: conditionActiveIn_def)
  next
    fix e assume "?Q e" then show "?Q (?g e)" by (simp add: entryOr_def isSnoozed_seen)
  next
    fix e show "?g (?g e) = ?g e" by (simp add: entryOr_def seen_seen)
  next
    show "?Q (applyAck inp E k)" using ack sn by (simp add: entryOr_def)
  qed
  moreover have "\<exists>d\<in>set (devices inp). owns d k"
    using act conditionActive_owns by (auto simp: conditionActiveIn_def)
  ultimately show ?thesis using ack by (simp add: evaluateGlobal_store entryOr_def)
qed

lemma first_owner:
  assumes "\<exists>d\<in>set ds. P d"
  obtains ds1 d ds2 where "ds = ds1 @ d # ds2" "P d" "\<forall>x\<in>set ds1. \<not> P x"
  using assms split_list_first_prop[of ds P] by blast

lemma snooze_resume:
  assumes ack: "applyAck inp E k = Some st" and ns: "\<not> isSnoozed st (nowMs inp) (modalSnoozeMs inp)"
    and act: "conditionActiveIn inp k"
    and reach: "E = cycles inps Map.empty" "sorted (map nowMs (inps @ [inp]))"
      "\<forall>i\<in>set inps. persistWindowMs i = persistWindowMs inp"
  shows "\<exists>c\<in>set (snd (collect inp E)). eventKey c = k \<and> lastFiredStage st \<le> stage c"
proof -
  let ?L = "detectLang (langMode inp) (navigatorJa inp)"
  let ?E0 = "applyAck inp E"
  have "\<exists>d\<in>set (devices inp). owns d k"
    using act conditionActive_owns by (auto simp: conditionActiveIn_def)
  then obtain ds1 d ds2 where sp: "devices inp = ds1 @ d # ds2" and own: "owns d k"
    and none: "\<forall>x\<in>set ds1. \<not> owns x k" by (rule first_owner)
  from sp own act have cact: "conditionActive inp d k" by (simp add: conditionActiveIn_def)
  let ?E1 = "storeAfter inp ?E0 ds1"
  have same: "?E1 k = ?E0 k" using none by (intro storeAfter_unowned) simp
  have "storeInv (persistWindowMs inp) (nowMs inp) E"
    unfolding reach(1) using reach(2,3) by (intro reached_inv) auto
  then have "storeInv (persistWindowMs inp) (nowMs inp) ?E0" by (rule applyAck_inv)
  with ack have inv: "stageInv (persistWindowMs inp) (nowMs inp) k (entryOr (?E1 k))"
    by (simp add: storeInv_def entryOr_def same)
  have ns1: "\<not> isSnoozed (entryOr (?E1 k)) (nowMs inp) (modalSnoozeMs inp)"
    using ack ns by (simp add: entryOr_def same)
  from active_cand[where inp=inp and d=d and k=k and E="?E1" and L="?L", OF cact ns1 inv]
  obtain c where
    c: "c \<in> set (devCands inp ?L d ?E1)" "eventKey c = k"
       "lastFiredStage (entryOr (?E1 k)) \<le> stage c" by blast
  from c(1) have "c \<in> set (snd (collect inp E))"
    by (simp add: collect_cands sp candsFrom_split)
  with c(2,3) ack same show ?thesis by (auto simp: entryOr_def)
qed

lemma applyAck_same_call:
  "ackEventKey inp = Some k \<Longrightarrow> k \<noteq> [] \<Longrightarrow>
     \<exists>st. applyAck inp E k = Some st \<and> lastAckMs st = Some (nowMs inp)"
  by (auto simp: applyAck_def acknowledgeEvent_def mutate_def getOrInitEvent_def)

lemma active_cand_any:
  assumes "conditionActive inp d k"
    and ns: "\<not> isSnoozed (entryOr (E k)) (nowMs inp) (modalSnoozeMs inp)"
  shows "\<exists>c\<in>set (devCands inp L d E). eventKey c = k"
  using assms(1)
proof (cases rule: conditionActive_cases)
  case 1
  let ?c = "offlineShown inp L d (seen (nowMs inp) (entryOr (E k)))"
  from 1 ns have "?c \<in> set (offlineCands inp L d (E (offlineKey d)))"
    by (simp add: offlineCands_def isSnoozed_seen)
  then have mem: "?c \<in> set (devCands inp L d E)" using offlineCands_in_devCands by blast
  with 1 offlineShown_stage[of inp L d "seen (nowMs inp) (entryOr (E k))"] show ?thesis
    by (intro bexI[of _ ?c]) auto
next
  case (2 m)
  let ?st = "seen (nowMs inp) (entryOr (E k))"
  let ?c = "anomalyShown inp L d m ?st"
  from 2 ns have "?c \<in> set (anomalyCands inp L d m (E (anomalyKey d m)))"
    by (simp add: anomalyCands_def isSnoozed_seen)
  then have mem: "?c \<in> set (devCands inp L d E)" using anomalyCands_in_devCands[OF 2(2)] by blast
  with 2 anomalyShown_stage[of inp L d m ?st] show ?thesis
    by (intro bexI[of _ ?c]) auto
qed

lemma snooze_resume_any:
  assumes ack: "applyAck inp E k = Some st" and ns: "\<not> isSnoozed st (nowMs inp) (modalSnoozeMs inp)"
    and act: "conditionActiveIn inp k"
  shows "\<exists>c\<in>set (snd (collect inp E)). eventKey c = k"
proof -
  let ?L = "detectLang (langMode inp) (navigatorJa inp)"
  let ?E0 = "applyAck inp E"
  have "\<exists>d\<in>set (devices inp). owns d k"
    using act conditionActive_owns by (auto simp: conditionActiveIn_def)
  then obtain ds1 d ds2 where sp: "devices inp = ds1 @ d # ds2" and own: "owns d k"
    and none: "\<forall>x\<in>set ds1. \<not> owns x k" by (rule first_owner)
  from sp own act have cact: "conditionActive inp d k" by (simp add: conditionActiveIn_def)
  let ?E1 = "storeAfter inp ?E0 ds1"
  have same: "?E1 k = ?E0 k" using none by (intro storeAfter_unowned) simp
  have ns1: "\<not> isSnoozed (entryOr (?E1 k)) (nowMs inp) (modalSnoozeMs inp)"
    using ack ns by (simp add: entryOr_def same)
  from active_cand_any[where inp=inp and d=d and k=k and E="?E1" and L="?L", OF cact ns1]
  obtain c where c: "c \<in> set (devCands inp ?L d ?E1)" "eventKey c = k" by blast
  from c(1) have "c \<in> set (snd (collect inp E))"
    by (simp add: collect_cands sp candsFrom_split)
  with c(2) show ?thesis by blast
qed


text \<open>
  Claim C5 as amended. An acknowledgement in the same call stores \<open>lastAckMs = nowMs\<close>
  before detection. If the entry of \<open>k\<close> after the ack step carries an acknowledgement
  time \<open>t0\<close> other than 0, then: within the snooze time no candidate has key \<open>k\<close>, and
  if the condition is active in the evaluation the entry is updated by \<open>seen\<close>
  (\<open>lastSeenMs\<close> set, \<open>firstSeenMs\<close> set if unset, nothing else changed); once the snooze
  time has elapsed and the condition is active, a candidate for \<open>k\<close> is produced, and
  its stage is at least the recorded \<open>lastFiredStage\<close> when the event map was reached by
  cycles with the same \<open>persistWindowMs\<close> and times that do not decrease.
\<close>

theorem snooze_suppresses_not_erases:
  "(ackEventKey inp = Some k \<and> k \<noteq> [] \<longrightarrow>
      (\<exists>st. applyAck inp E k = Some st \<and> lastAckMs st = Some (nowMs inp))) \<and>
   (\<forall>st t0. applyAck inp E k = Some st \<and> lastAckMs st = Some t0 \<and> t0 \<noteq> 0 \<longrightarrow>
      (nowMs inp - t0 < modalSnoozeMs inp \<longrightarrow>
         (\<forall>c\<in>set (snd (collect inp E)). eventKey c \<noteq> k) \<and>
         (conditionActiveIn inp k \<longrightarrow>
            snd (evaluateGlobal inp E) k = Some (seen (nowMs inp) st))) \<and>
      (modalSnoozeMs inp \<le> nowMs inp - t0 \<and> conditionActiveIn inp k \<longrightarrow>
         (\<exists>c\<in>set (snd (collect inp E)). eventKey c = k) \<and>
         (\<forall>inps::input list.
            E = cycles inps Map.empty \<and> sorted (map nowMs (inps @ [inp])) \<and>
            (\<forall>i\<in>set inps. persistWindowMs i = persistWindowMs inp) \<longrightarrow>
            (\<exists>c\<in>set (snd (collect inp E)). eventKey c = k \<and> lastFiredStage st \<le> stage c))))"
proof (intro conjI allI impI)
  assume "ackEventKey inp = Some k \<and> k \<noteq> []"
  then show "\<exists>st. applyAck inp E k = Some st \<and> lastAckMs st = Some (nowMs inp)"
    using applyAck_same_call by blast
next
  fix st t0
  assume a: "applyAck inp E k = Some st \<and> lastAckMs st = Some t0 \<and> t0 \<noteq> 0"
    and w: "nowMs inp - t0 < modalSnoozeMs inp"
  from a w have sn: "isSnoozed st (nowMs inp) (modalSnoozeMs inp)" by (simp add: isSnoozed_iff)
  with a have "isSnoozed (entryOr (applyAck inp E k)) (nowMs inp) (modalSnoozeMs inp)"
    by (simp add: entryOr_def)
  then show "\<forall>c\<in>set (snd (collect inp E)). eventKey c \<noteq> k" by (rule snoozed_no_candidate)
  assume "conditionActiveIn inp k"
  with a sn show "snd (evaluateGlobal inp E) k = Some (seen (nowMs inp) st)"
    using snooze_bookkeeping by blast
next
  fix st t0
  assume a: "applyAck inp E k = Some st \<and> lastAckMs st = Some t0 \<and> t0 \<noteq> 0"
    and w: "modalSnoozeMs inp \<le> nowMs inp - t0 \<and> conditionActiveIn inp k"
  from a w have ns: "\<not> isSnoozed st (nowMs inp) (modalSnoozeMs inp)" by (simp add: isSnoozed_iff)
  from a have e: "applyAck inp E k = Some st" by simp
  from w have act: "conditionActiveIn inp k" by simp
  show "\<exists>c\<in>set (snd (collect inp E)). eventKey c = k"
    by (rule snooze_resume_any[OF e ns act])
next
  fix st t0 and inps :: "input list"
  assume a: "applyAck inp E k = Some st \<and> lastAckMs st = Some t0 \<and> t0 \<noteq> 0"
    and w: "modalSnoozeMs inp \<le> nowMs inp - t0 \<and> conditionActiveIn inp k"
    and h: "E = cycles inps Map.empty \<and> sorted (map nowMs (inps @ [inp])) \<and>
            (\<forall>i\<in>set inps. persistWindowMs i = persistWindowMs inp)"
  from a w have ns: "\<not> isSnoozed st (nowMs inp) (modalSnoozeMs inp)" by (simp add: isSnoozed_iff)
  from a have e: "applyAck inp E k = Some st" by simp
  from w have h2: "conditionActiveIn inp k" by simp
  from h have h3: "E = cycles inps Map.empty" and h4: "sorted (map nowMs (inps @ [inp]))"
    and h5: "\<forall>i\<in>set inps. persistWindowMs i = persistWindowMs inp"
    by blast+
  show "\<exists>c\<in>set (snd (collect inp E)). eventKey c = k \<and> lastFiredStage st \<le> stage c"
    by (rule snooze_resume[OF e ns h2 h3 h4 h5])
qed

section \<open>Concrete cycles\<close>

lemmas fixture_defs = devB_def stB_def

lemma cycle_25000:
  "snd (evaluateGlobal (dashboardInput [devB] 25000 None) Map.empty) =
     [''B:Temperature:anomaly'' \<mapsto> stB (Some 25000) (Some 25000) 2 None]"
  by (simp add: run_defs anomaly_defs fixture_defs fun_eq_iff)

lemma cycle_1825000:
  "snd (evaluateGlobal (dashboardInput [devB] 1825000 None)
     [''B:Temperature:anomaly'' \<mapsto> stB (Some 25000) (Some 25000) 2 None]) =
     [''B:Temperature:anomaly'' \<mapsto> stB (Some 25000) (Some 1825000) 3 None,
      ''B:offline'' \<mapsto> stB (Some 1825000) (Some 1825000) 0 None]"
  by (simp add: run_defs anomaly_defs fixture_defs fun_eq_iff)

lemma cycle_ack_1825000:
  "snd (evaluateGlobal (dashboardInput [devB] 1825000 (Some ''B:Temperature:anomaly''))
     [''B:Temperature:anomaly'' \<mapsto> stB (Some 25000) (Some 1825000) 3 None,
      ''B:offline'' \<mapsto> stB (Some 1825000) (Some 1825000) 0 None]) =
     [''B:Temperature:anomaly'' \<mapsto> stB (Some 25000) (Some 1825000) 3 (Some 1825000),
      ''B:offline'' \<mapsto> stB (Some 1825000) (Some 1825000) 0 None]"
  by (simp add: run_defs anomaly_defs fixture_defs fun_eq_iff)

lemma cands_after_window_change:
  "map (\<lambda>c. (eventKey c, stage c))
     (snd (collect ((dashboardInput [devB] 2125000 None)\<lparr>persistWindowMs := 3600000\<rparr>)
       [''B:Temperature:anomaly'' \<mapsto> stB (Some 25000) (Some 1825000) 3 (Some 1825000),
        ''B:offline'' \<mapsto> stB (Some 1825000) (Some 1825000) 0 None])) =
   [(''B:offline'', 2), (''B:Temperature:anomaly'', 2)]"
  by (simp add: run_defs anomaly_defs fixture_defs)

lemma cycle_ack_30000:
  "snd (evaluateGlobal (dashboardInput [devB] 30000 (Some ''B:Temperature:anomaly''))
     [''B:Temperature:anomaly'' \<mapsto> stB (Some 25000) (Some 1825000) 3 None,
      ''B:offline'' \<mapsto> stB (Some 1825000) (Some 1825000) 0 None]) =
     [''B:Temperature:anomaly'' \<mapsto> stB (Some 25000) (Some 30000) 3 (Some 30000),
      ''B:offline'' \<mapsto> stB None None 0 None]"
  by (simp add: run_defs anomaly_defs fixture_defs fun_eq_iff)

lemma cands_after_clock_back:
  "map (\<lambda>c. (eventKey c, stage c))
     (snd (collect (dashboardInput [devB] 330000 None)
       [''B:Temperature:anomaly'' \<mapsto> stB (Some 25000) (Some 30000) 3 (Some 30000),
        ''B:offline'' \<mapsto> stB None None 0 None])) =
   [(''B:offline'', 2), (''B:Temperature:anomaly'', 2)]"
  by (simp add: run_defs anomaly_defs fixture_defs)

text \<open>
  Claim C5 fails as stated at three inputs. An acknowledgement at time 0 does not snooze:
  \<open>isSnoozed\<close> reads \<open>lastAckMs = 0\<close> as never acknowledged, and the acknowledged event is a
  candidate in the same call. And the stage of the candidate after the snooze time is
  recomputed from \<open>seenFor\<close>, with no floor at \<open>lastFiredStage\<close>: with stage 3 recorded, a
  longer persist window in the later call, or a clock that ran backwards, gives stage 2.
\<close>

theorem snooze_claim_counterexample:
  "(lastAckMs (the (applyAck (dashboardInput [mkDevice ''A'' [] None] 0 (Some ''A:offline'')) Map.empty
        ''A:offline'')) = Some 0 \<and>
    (0::int) - 0 < modalSnoozeMs (dashboardInput [mkDevice ''A'' [] None] 0 (Some ''A:offline'')) \<and>
    map eventKey (snd (collect (dashboardInput [mkDevice ''A'' [] None] 0 (Some ''A:offline'')) Map.empty))
      = [''A:offline'']) \<and>
   (lastFiredStage (the (cycles [dashboardInput [devB] 25000 None, dashboardInput [devB] 1825000 None,
        dashboardInput [devB] 1825000 (Some ''B:Temperature:anomaly'')] Map.empty
        ''B:Temperature:anomaly'')) = 3 \<and>
    lastAckMs (the (cycles [dashboardInput [devB] 25000 None, dashboardInput [devB] 1825000 None,
        dashboardInput [devB] 1825000 (Some ''B:Temperature:anomaly'')] Map.empty
        ''B:Temperature:anomaly'')) = Some 1825000 \<and>
    modalSnoozeMs (dashboardInput [devB] 2125000 None) \<le> 2125000 - 1825000 \<and>
    map (\<lambda>c. (eventKey c, stage c))
      (snd (collect ((dashboardInput [devB] 2125000 None)\<lparr>persistWindowMs := 3600000\<rparr>)
        (cycles [dashboardInput [devB] 25000 None, dashboardInput [devB] 1825000 None,
           dashboardInput [devB] 1825000 (Some ''B:Temperature:anomaly'')] Map.empty)))
      = [(''B:offline'', 2), (''B:Temperature:anomaly'', 2)]) \<and>
   (lastFiredStage (the (cycles [dashboardInput [devB] 25000 None, dashboardInput [devB] 1825000 None,
        dashboardInput [devB] 30000 (Some ''B:Temperature:anomaly'')] Map.empty
        ''B:Temperature:anomaly'')) = 3 \<and>
    lastAckMs (the (cycles [dashboardInput [devB] 25000 None, dashboardInput [devB] 1825000 None,
        dashboardInput [devB] 30000 (Some ''B:Temperature:anomaly'')] Map.empty
        ''B:Temperature:anomaly'')) = Some 30000 \<and>
    modalSnoozeMs (dashboardInput [devB] 330000 None) \<le> 330000 - 30000 \<and>
    map (\<lambda>c. (eventKey c, stage c))
      (snd (collect (dashboardInput [devB] 330000 None)
        (cycles [dashboardInput [devB] 25000 None, dashboardInput [devB] 1825000 None,
           dashboardInput [devB] 30000 (Some ''B:Temperature:anomaly'')] Map.empty)))
      = [(''B:offline'', 2), (''B:Temperature:anomaly'', 2)])"
proof -
  have a: "lastAckMs (the (applyAck (dashboardInput [mkDevice ''A'' [] None] 0 (Some ''A:offline'')) Map.empty
        ''A:offline'')) = Some 0 \<and>
    (0::int) - 0 < modalSnoozeMs (dashboardInput [mkDevice ''A'' [] None] 0 (Some ''A:offline'')) \<and>
    map eventKey (snd (collect (dashboardInput [mkDevice ''A'' [] None] 0 (Some ''A:offline'')) Map.empty))
      = [''A:offline'']"
    by (simp add: run_defs)
  have c1: "cycles [dashboardInput [devB] 25000 None, dashboardInput [devB] 1825000 None,
        dashboardInput [devB] 1825000 (Some ''B:Temperature:anomaly'')] Map.empty =
     [''B:Temperature:anomaly'' \<mapsto> stB (Some 25000) (Some 1825000) 3 (Some 1825000),
      ''B:offline'' \<mapsto> stB (Some 1825000) (Some 1825000) 0 None]"
    by (simp only: cycles.simps cycle_25000 cycle_1825000 cycle_ack_1825000)
  have c2: "cycles [dashboardInput [devB] 25000 None, dashboardInput [devB] 1825000 None,
        dashboardInput [devB] 30000 (Some ''B:Temperature:anomaly'')] Map.empty =
     [''B:Temperature:anomaly'' \<mapsto> stB (Some 25000) (Some 30000) 3 (Some 30000),
      ''B:offline'' \<mapsto> stB None None 0 None]"
    by (simp only: cycles.simps cycle_25000 cycle_1825000 cycle_ack_30000)
  have b: "modalSnoozeMs (dashboardInput [devB] 2125000 None) \<le> 2125000 - 1825000"
    "modalSnoozeMs (dashboardInput [devB] 330000 None) \<le> 330000 - 30000"
    by (simp_all add: dashboardInput_def)
  show ?thesis
    unfolding c1 c2 cands_after_window_change cands_after_clock_back
    using a b by (simp add: stB_def)
qed

theorem lastFiredStage_floor_witness:
  "[''B:Temperature:anomaly'' \<mapsto> stB (Some 25000) (Some 25000) 2 None] ''B:Temperature:anomaly''
      = Some (stB (Some 25000) (Some 25000) 2 None) \<and>
   (\<exists>st'. snd (evaluateGlobal (dashboardInput [devB] 1825000 None)
        [''B:Temperature:anomaly'' \<mapsto> stB (Some 25000) (Some 25000) 2 None])
        ''B:Temperature:anomaly'' = Some st' \<and>
      lastFiredStage (stB (Some 25000) (Some 25000) 2 None) = 2 \<and> lastFiredStage st' = 3)"
  using lastFiredStage_floor[of "[''B:Temperature:anomaly'' \<mapsto> stB (Some 25000) (Some 25000) 2 None]"
      "''B:Temperature:anomaly''" "stB (Some 25000) (Some 25000) 2 None"
      "dashboardInput [devB] 1825000 None"]
  by (simp add: cycle_1825000) (simp add: stB_def)

lemma active_devB: "conditionActiveIn (dashboardInput [devB] t a) ''B:Temperature:anomaly''"
  by (simp add: conditionActiveIn_def conditionActive_def owns_def metricActive_def
      dashboardInput_def devB_def mkDevice_def offlineKey_def anomalyKey_def truthy_def anomaly_defs)

lemma cycle_ack_26000:
  "snd (evaluateGlobal (dashboardInput [devB] 26000 (Some ''B:Temperature:anomaly''))
     [''B:Temperature:anomaly'' \<mapsto> stB (Some 25000) (Some 25000) 2 None]) =
     [''B:Temperature:anomaly'' \<mapsto> stB (Some 25000) (Some 26000) 2 (Some 26000)]"
  by (simp add: run_defs anomaly_defs fixture_defs fun_eq_iff)

theorem snooze_suppresses_not_erases_witness:
  "applyAck (dashboardInput [devB] 26000 (Some ''B:Temperature:anomaly''))
      [''B:Temperature:anomaly'' \<mapsto> stB (Some 25000) (Some 25000) 2 None] ''B:Temperature:anomaly''
     = Some (stB (Some 25000) (Some 25000) 2 (Some 26000)) \<and>
   ''B:Temperature:anomaly'' \<notin> eventKey ` set (snd (collect (dashboardInput [devB] 26000 (Some ''B:Temperature:anomaly''))
      [''B:Temperature:anomaly'' \<mapsto> stB (Some 25000) (Some 25000) 2 None])) \<and>
   snd (evaluateGlobal (dashboardInput [devB] 26000 (Some ''B:Temperature:anomaly''))
      [''B:Temperature:anomaly'' \<mapsto> stB (Some 25000) (Some 25000) 2 None]) ''B:Temperature:anomaly''
     = Some (stB (Some 25000) (Some 26000) 2 (Some 26000)) \<and>
   (\<exists>c\<in>set (snd (collect (dashboardInput [devB] 330000 None)
        [''B:Temperature:anomaly'' \<mapsto> stB (Some 25000) (Some 30000) 3 (Some 30000),
         ''B:offline'' \<mapsto> stB None None 0 None])).
      eventKey c = ''B:Temperature:anomaly'') \<and>
   lastFiredStage (the (cycles [dashboardInput [devB] 25000 None, dashboardInput [devB] 1825000 None,
        dashboardInput [devB] 1825000 (Some ''B:Temperature:anomaly'')] Map.empty
        ''B:Temperature:anomaly'')) = 3 \<and>
   (\<exists>c\<in>set (snd (collect (dashboardInput [devB] 2125000 None)
        (cycles [dashboardInput [devB] 25000 None, dashboardInput [devB] 1825000 None,
                 dashboardInput [devB] 1825000 (Some ''B:Temperature:anomaly'')] Map.empty))).
      eventKey c = ''B:Temperature:anomaly'' \<and> 3 \<le> stage c)"
proof -
  let ?k = "''B:Temperature:anomaly''"
  let ?E1 = "[?k \<mapsto> stB (Some 25000) (Some 25000) 2 None]"
  let ?ia = "dashboardInput [devB] 26000 (Some ?k)"
  let ?st1 = "stB (Some 25000) (Some 25000) 2 (Some 26000)"
  have ack1: "applyAck ?ia ?E1 ?k = Some ?st1"
    by (simp add: applyAck_def acknowledgeEvent_def getOrInitEvent_def mutate_def dashboardInput_def stB_def)
  have pre1: "applyAck ?ia ?E1 ?k = Some ?st1 \<and> lastAckMs ?st1 = Some 26000 \<and> (26000::int) \<noteq> 0"
    using ack1 by (simp add: stB_def)
  have win1: "nowMs ?ia - 26000 < modalSnoozeMs ?ia" by (simp add: dashboardInput_def)
  note T1 = snooze_suppresses_not_erases[of ?ia ?k ?E1, THEN conjunct2,
      THEN spec[where x="?st1"], THEN spec[where x=26000], THEN mp, OF pre1, THEN conjunct1,
      THEN mp, OF win1]
  from T1[THEN conjunct1] have no: "?k \<notin> eventKey ` set (snd (collect ?ia ?E1))" by auto
  from T1[THEN conjunct2, THEN mp, OF active_devB]
  have "snd (evaluateGlobal ?ia ?E1) ?k = Some (seen (nowMs ?ia) ?st1)" .
  then have book: "snd (evaluateGlobal ?ia ?E1) ?k = Some (stB (Some 25000) (Some 26000) 2 (Some 26000))"
    by (simp add: seen_def stB_def truthy_def dashboardInput_def)

  let ?ib = "dashboardInput [devB] 330000 None"
  let ?Eb = "[?k \<mapsto> stB (Some 25000) (Some 30000) 3 (Some 30000),
              ''B:offline'' \<mapsto> stB None None 0 None]"
  let ?stb = "stB (Some 25000) (Some 30000) 3 (Some 30000)"
  have preb: "applyAck ?ib ?Eb ?k = Some ?stb \<and> lastAckMs ?stb = Some 30000 \<and> (30000::int) \<noteq> 0"
    by (simp add: applyAck_def dashboardInput_def stB_def)
  have winb: "modalSnoozeMs ?ib \<le> nowMs ?ib - 30000 \<and> conditionActiveIn ?ib ?k"
    using active_devB by (simp add: dashboardInput_def)
  note Tb = snooze_suppresses_not_erases[of ?ib ?k ?Eb, THEN conjunct2,
      THEN spec[where x="?stb"], THEN spec[where x=30000], THEN mp, OF preb, THEN conjunct2,
      THEN mp, OF winb, THEN conjunct1]

  let ?i5 = "dashboardInput [devB] 2125000 None"
  let ?inps = "[dashboardInput [devB] 25000 None, dashboardInput [devB] 1825000 None,
                dashboardInput [devB] 1825000 (Some ?k)]"
  let ?E2 = "cycles ?inps Map.empty"
  let ?st2 = "stB (Some 25000) (Some 1825000) 3 (Some 1825000)"
  have E2: "?E2 = [?k \<mapsto> ?st2, ''B:offline'' \<mapsto> stB (Some 1825000) (Some 1825000) 0 None]"
    by (simp only: cycles.simps cycle_25000 cycle_1825000 cycle_ack_1825000)
  have rec: "lastFiredStage (the (?E2 ?k)) = 3" unfolding E2 by (simp add: stB_def)
  have pre2: "applyAck ?i5 ?E2 ?k = Some ?st2 \<and> lastAckMs ?st2 = Some 1825000 \<and> (1825000::int) \<noteq> 0"
    unfolding E2 by (simp add: applyAck_def dashboardInput_def stB_def)
  have win2: "modalSnoozeMs ?i5 \<le> nowMs ?i5 - 1825000 \<and> conditionActiveIn ?i5 ?k"
    using active_devB by (simp add: dashboardInput_def)
  have hyp2: "?E2 = cycles ?inps Map.empty \<and>
      sorted (map nowMs (?inps @ [?i5])) \<and> (\<forall>i\<in>set ?inps. persistWindowMs i = persistWindowMs ?i5)"
    by (simp add: dashboardInput_def)
  note T2 = snooze_suppresses_not_erases[of ?i5 ?k ?E2, THEN conjunct2,
      THEN spec[where x="?st2"], THEN spec[where x=1825000], THEN mp, OF pre2, THEN conjunct2,
      THEN mp, OF win2, THEN conjunct2, THEN spec[where x="?inps"], THEN mp, OF hyp2]
  from T2 have res: "\<exists>c\<in>set (snd (collect ?i5 ?E2)). eventKey c = ?k \<and> 3 \<le> stage c"
    by (simp add: stB_def)
  from ack1 no book Tb rec res show ?thesis by (intro conjI)
qed

section \<open>Offline recovery\<close>

text \<open>
  Claim C10 fails as stated for an acknowledgement at time 0: the entry is created with
  \<open>lastAckMs = 0\<close>, which \<open>isSnoozed\<close> reads as never acknowledged, and the condition that
  becomes active 1 s later is a candidate.
\<close>

theorem ack_at_time_zero_counterexample:
  "(Map.empty :: events) ''A:offline'' = None \<and>
   acknowledgeEvent ''A:offline'' 0 Map.empty ''A:offline'' = Some (fresh_event\<lparr>lastAckMs := Some 0\<rparr>) \<and>
   nowMs (dashboardInput [mkDevice ''A'' [] None] 1000 None) - 0
     < modalSnoozeMs (dashboardInput [mkDevice ''A'' [] None] 1000 None) \<and>
   map eventKey (snd (collect (dashboardInput [mkDevice ''A'' [] None] 1000 None)
      (acknowledgeEvent ''A:offline'' 0 Map.empty))) = [''A:offline'']"
  by (simp add: run_defs)

lemma cleared_cleared: "cleared (cleared st) = cleared st"
  by (simp add: cleared_def)

lemma same_id_offlineKey: "deviceId d' = deviceId d \<Longrightarrow> offlineKey d' = offlineKey d"
  by (simp add: offlineKey_def)

lemma offline_all_inactive:
  assumes "\<forall>d'\<in>set ds. deviceId d' = deviceId d \<longrightarrow> \<not> offlineActive inp d'"
  shows "storeAfter inp E ds (offlineKey d) =
           (if \<exists>d'\<in>set ds. owns d' (offlineKey d) then map_option cleared (E (offlineKey d))
            else E (offlineKey d))"
proof (rule storeAfter_uniform[where Q="\<lambda>e. True" and g="map_option cleared"])
  fix d' and e :: "event_state option" and E' :: events
  assume h: "d' \<in> set ds" "owns d' (offlineKey d)" "E' (offlineKey d) = e"
  then have id: "deviceId d' = deviceId d" by (simp add: owns_offline)
  with assms h(1) have "\<not> offlineActive inp d'" by blast
  then have "devStore inp d' E' (offlineKey d') = map_option cleared (E' (offlineKey d'))"
    by (simp add: devStore_offline offlineEntry_def)
  with h(3) show "devStore inp d' E' (offlineKey d) = map_option cleared e"
    by (simp add: same_id_offlineKey[OF id])
next
  fix e :: "event_state option"
  show "map_option cleared (map_option cleared e) = map_option cleared e"
    by (cases e) (simp_all add: cleared_cleared)
qed simp_all

lemma offline_all_active:
  assumes "\<forall>d'\<in>set ds. deviceId d' = deviceId d \<longrightarrow> offlineActive inp d'"
  shows "storeAfter inp E ds (offlineKey d) =
           (if \<exists>d'\<in>set ds. owns d' (offlineKey d)
            then Some (seen (nowMs inp) (entryOr (E (offlineKey d))))
            else E (offlineKey d))"
proof (rule storeAfter_uniform[where Q="\<lambda>e. True" and g="\<lambda>e. Some (seen (nowMs inp) (entryOr e))"])
  fix d' and e :: "event_state option" and E' :: events
  assume h: "d' \<in> set ds" "owns d' (offlineKey d)" "E' (offlineKey d) = e"
  then have id: "deviceId d' = deviceId d" by (simp add: owns_offline)
  with assms h(1) have "offlineActive inp d'" by blast
  then have "devStore inp d' E' (offlineKey d') = Some (seen (nowMs inp) (entryOr (E' (offlineKey d'))))"
    by (simp add: devStore_offline offlineEntry_def)
  with h(3) show "devStore inp d' E' (offlineKey d) = Some (seen (nowMs inp) (entryOr e))"
    by (simp add: same_id_offlineKey[OF id])
next
  fix e :: "event_state option"
  show "Some (seen (nowMs inp) (entryOr (Some (seen (nowMs inp) (entryOr e))))) =
        Some (seen (nowMs inp) (entryOr e))"
    by (simp add: entryOr_def seen_seen)
qed simp_all

lemma applyAck_firstSeen:
  "firstSeenMs (entryOr (applyAck inp E k)) = firstSeenMs (entryOr (E k))"
  using applyAck_cases[of inp E k] by (auto simp: entryOr_def)

text \<open>
  Claim C6 as amended. When every snapshot of a device in the call has a last-data time
  that is present and not 0, with an age below \<open>warnMs\<close>, the entry of the device's offline
  key is cleared by the end of that call (if it exists: \<open>firstSeenMs\<close> and \<open>lastSeenMs\<close>
  null, \<open>lastFiredStage\<close> 0). If the next call finds the device offline, the entry's
  \<open>firstSeenMs\<close> is the time of that call.
\<close>

theorem offline_recovery_resets:
  assumes "d \<in> set (devices inp)"
    and "\<forall>d'\<in>set (devices inp). deviceId d' = deviceId d \<longrightarrow>
           (\<exists>l. lastDataMs d' = Some l \<and> l \<noteq> 0 \<and> nowMs inp - l < warnMs inp)"
  shows "snd (evaluateGlobal inp E) (offlineKey d) = map_option cleared (applyAck inp E (offlineKey d)) \<and>
         (\<forall>st. E (offlineKey d) = Some st \<longrightarrow>
            (\<exists>st'. snd (evaluateGlobal inp E) (offlineKey d) = Some st' \<and>
               firstSeenMs st' = None \<and> lastSeenMs st' = None \<and> lastFiredStage st' = 0)) \<and>
         (\<forall>inp2::input.
            (\<exists>d2\<in>set (devices inp2). deviceId d2 = deviceId d) \<and>
            (\<forall>d2\<in>set (devices inp2). deviceId d2 = deviceId d \<longrightarrow> offlineActive inp2 d2) \<longrightarrow>
            (\<exists>st'. snd (evaluateGlobal inp2 (snd (evaluateGlobal inp E))) (offlineKey d) = Some st' \<and>
               firstSeenMs st' = Some (nowMs inp2)))"
proof -
  let ?k = "offlineKey d"
  let ?E1 = "snd (evaluateGlobal inp E)"
  have inact: "\<forall>d'\<in>set (devices inp). deviceId d' = deviceId d \<longrightarrow> \<not> offlineActive inp d'"
    using assms(2) by (auto simp: offlineActive_def truthy_def)
  have own: "\<exists>d'\<in>set (devices inp). owns d' ?k"
    using assms(1) by (auto simp: owns_offline)
  have 1: "?E1 ?k = map_option cleared (applyAck inp E ?k)"
    unfolding evaluateGlobal_store using offline_all_inactive[OF inact] own by simp
  have 2: "\<forall>st. E ?k = Some st \<longrightarrow>
            (\<exists>st'. ?E1 ?k = Some st' \<and>
               firstSeenMs st' = None \<and> lastSeenMs st' = None \<and> lastFiredStage st' = 0)"
  proof (intro allI impI)
    fix st assume "E ?k = Some st"
    then obtain s0 where "applyAck inp E ?k = Some s0"
      using applyAck_floor[where E=E and k="?k" and st=st and inp=inp] by blast
    with 1 show "\<exists>st'. ?E1 ?k = Some st' \<and>
               firstSeenMs st' = None \<and> lastSeenMs st' = None \<and> lastFiredStage st' = 0"
      by (simp add: cleared_fields)
  qed
  have none1: "firstSeenMs (entryOr (?E1 ?k)) = None"
    unfolding 1 by (cases "applyAck inp E ?k") (simp_all add: entryOr_def fresh_event_def cleared_fields)
  have 3: "\<forall>inp2::input.
            (\<exists>d2\<in>set (devices inp2). deviceId d2 = deviceId d) \<and>
            (\<forall>d2\<in>set (devices inp2). deviceId d2 = deviceId d \<longrightarrow> offlineActive inp2 d2) \<longrightarrow>
            (\<exists>st'. snd (evaluateGlobal inp2 ?E1) ?k = Some st' \<and> firstSeenMs st' = Some (nowMs inp2))"
  proof (intro allI impI)
    fix inp2 :: input
    assume h: "(\<exists>d2\<in>set (devices inp2). deviceId d2 = deviceId d) \<and>
            (\<forall>d2\<in>set (devices inp2). deviceId d2 = deviceId d \<longrightarrow> offlineActive inp2 d2)"
    then have own2: "\<exists>d'\<in>set (devices inp2). owns d' ?k" by (auto simp: owns_offline)
    from h have act2: "\<forall>d2\<in>set (devices inp2). deviceId d2 = deviceId d \<longrightarrow> offlineActive inp2 d2"
      by blast
    have e: "snd (evaluateGlobal inp2 ?E1) ?k =
        Some (seen (nowMs inp2) (entryOr (applyAck inp2 ?E1 ?k)))"
      unfolding evaluateGlobal_store[of inp2] using offline_all_active[OF act2] own2 by simp
    have "firstSeenMs (entryOr (applyAck inp2 ?E1 ?k)) = None"
      using none1 by (simp add: applyAck_firstSeen)
    then have "firstSeenMs (seen (nowMs inp2) (entryOr (applyAck inp2 ?E1 ?k))) = Some (nowMs inp2)"
      by (simp add: seen_fields truthy_def)
    with e show "\<exists>st'. snd (evaluateGlobal inp2 ?E1) ?k = Some st' \<and> firstSeenMs st' = Some (nowMs inp2)"
      by simp
  qed
  from 1 2 3 show ?thesis by blast
qed

text \<open>
  Claim C6 fails as stated when the last-data time is the number 0: \<open>!lastDataMs\<close> takes
  the device for one that never sent data. With the device first seen offline at 500 and
  a snapshot at 1000 with \<open>lastDataMs = 0\<close>, the age 1000 is below \<open>warnMs\<close>, yet the offline
  event is not cleared but observed again, and a candidate is produced.
\<close>

theorem offline_age_zero_counterexample:
  "lastDataMs (mkDevice ''A'' [] (Some 0)) = Some 0 \<and>
   nowMs (dashboardInput [mkDevice ''A'' [] (Some 0)] 1000 None) - 0
     < warnMs (dashboardInput [mkDevice ''A'' [] (Some 0)] 1000 None) \<and>
   snd (evaluateGlobal (dashboardInput [mkDevice ''A'' [] None] 500 None) Map.empty) ''A:offline''
     = Some (stB (Some 500) (Some 500) 0 None) \<and>
   snd (evaluateGlobal (dashboardInput [mkDevice ''A'' [] (Some 0)] 1000 None)
     (snd (evaluateGlobal (dashboardInput [mkDevice ''A'' [] None] 500 None) Map.empty))) ''A:offline''
     = Some (stB (Some 500) (Some 1000) 0 None) \<and>
   map eventKey (snd (collect (dashboardInput [mkDevice ''A'' [] (Some 0)] 1000 None)
     (snd (evaluateGlobal (dashboardInput [mkDevice ''A'' [] None] 500 None) Map.empty))))
     = [''A:offline'']"
  by (simp add: run_defs stB_def)

theorem offline_recovery_resets_witness:
  "mkDevice ''A'' [] (Some 1009000) \<in> set (devices (dashboardInput [mkDevice ''A'' [] (Some 1009000)] 1010000 None)) \<and>
   snd (evaluateGlobal (dashboardInput [mkDevice ''A'' [] (Some 1009000)] 1010000 None)
      [''A:offline'' \<mapsto> stB (Some 400000) (Some 1000000) 0 None]) ''A:offline''
     = Some (stB None None 0 None) \<and>
   (\<exists>st'. snd (evaluateGlobal (dashboardInput [mkDevice ''A'' [] (Some 1009000)] 1100000 None)
        (snd (evaluateGlobal (dashboardInput [mkDevice ''A'' [] (Some 1009000)] 1010000 None)
           [''A:offline'' \<mapsto> stB (Some 400000) (Some 1000000) 0 None]))) ''A:offline'' = Some st' \<and>
      firstSeenMs st' = Some 1100000)"
proof -
  let ?d = "mkDevice ''A'' [] (Some 1009000)"
  let ?inp = "dashboardInput [?d] 1010000 None"
  let ?inp2 = "dashboardInput [?d] 1100000 None"
  let ?E = "[''A:offline'' \<mapsto> stB (Some 400000) (Some 1000000) 0 None]"
  have m: "?d \<in> set (devices ?inp)" by (simp add: dashboardInput_def)
  have h: "\<forall>d'\<in>set (devices ?inp). deviceId d' = deviceId ?d \<longrightarrow>
           (\<exists>l. lastDataMs d' = Some l \<and> l \<noteq> 0 \<and> nowMs ?inp - l < warnMs ?inp)"
    by (simp add: dashboardInput_def mkDevice_def)
  note T = offline_recovery_resets[OF m h, of ?E]
  from T have "snd (evaluateGlobal ?inp ?E) (offlineKey ?d) = map_option cleared (applyAck ?inp ?E (offlineKey ?d))"
    by blast
  then have 1: "snd (evaluateGlobal ?inp ?E) ''A:offline'' = Some (stB None None 0 None)"
    by (simp add: offlineKey_def mkDevice_def applyAck_def dashboardInput_def cleared_def stB_def)
  have h2: "(\<exists>d2\<in>set (devices ?inp2). deviceId d2 = deviceId ?d) \<and>
            (\<forall>d2\<in>set (devices ?inp2). deviceId d2 = deviceId ?d \<longrightarrow> offlineActive ?inp2 d2)"
    by (simp add: dashboardInput_def mkDevice_def offlineActive_def truthy_def)
  from T[THEN conjunct2, THEN conjunct2, THEN spec[where x="?inp2"], THEN mp, OF h2]
  have 2: "\<exists>st'. snd (evaluateGlobal ?inp2 (snd (evaluateGlobal ?inp ?E))) ''A:offline'' = Some st' \<and>
      firstSeenMs st' = Some 1100000"
    by (simp add: offlineKey_def mkDevice_def dashboardInput_def)
  from m 1 2 show ?thesis by (intro conjI)
qed

section \<open>Repeating a call\<close>

lemma offlineEntry_idem: "offlineEntry inp d (offlineEntry inp d e) = offlineEntry inp d e"
  by (cases e) (simp_all add: offlineEntry_def entryOr_def seen_seen cleared_cleared)

lemma offlineCands_idem: "offlineCands inp L d (offlineEntry inp d e) = offlineCands inp L d e"
  by (simp add: offlineCands_def offlineEntry_def entryOr_def seen_seen)

lemma quietFor_cleared: "quietFor inp (cleared st) = 0"
  by (simp add: quietFor_def cleared_fields truthy_def)

lemma seen_stage: "seen t (st\<lparr>lastFiredStage := s\<rparr>) = (seen t st)\<lparr>lastFiredStage := s\<rparr>"
  by (simp add: seen_def Let_def)

lemma isSnoozed_stage: "isSnoozed (st\<lparr>lastFiredStage := s\<rparr>) t sn = isSnoozed st t sn"
  by (simp add: isSnoozed_def)

lemma anomalyStage_stage: "anomalyStage inp (st\<lparr>lastFiredStage := s\<rparr>) = anomalyStage inp st"
  by (simp add: anomalyStage_def seenFor_def)

lemma anomalyStage_seen: "anomalyStage inp (seen (nowMs inp) st) = anomalyStage inp st"
  by (simp add: anomalyStage_def seenFor_seen)

lemma anomalyShown_stage_upd:
  "anomalyShown inp L d m (st\<lparr>lastFiredStage := s\<rparr>) = anomalyShown inp L d m st"
  by (simp add: anomalyShown_def anomalyStage_def seenFor_def)

lemma anomalyEntry_active:
  assumes "\<not> length (series (rows d) m) < 3" "active m (series (rows d) m)"
  shows "anomalyEntry inp d m e =
     (if isSnoozed (seen (nowMs inp) (entryOr e)) (nowMs inp) (modalSnoozeMs inp)
      then Some (seen (nowMs inp) (entryOr e))
      else if anomalyStage inp (seen (nowMs inp) (entryOr e)) > lastFiredStage (seen (nowMs inp) (entryOr e))
           then Some ((seen (nowMs inp) (entryOr e))
                  \<lparr>lastFiredStage := anomalyStage inp (seen (nowMs inp) (entryOr e))\<rparr>)
           else Some (seen (nowMs inp) (entryOr e)))"
  using assms by (simp add: anomalyEntry_def Let_def)

lemma anomalyEntry_idem: "anomalyEntry inp d m (anomalyEntry inp d m e) = anomalyEntry inp d m e"
proof (cases "length (series (rows d) m) < 3")
  case True
  then show ?thesis by (simp add: anomalyEntry_def)
next
  case long: False
  show ?thesis
  proof (cases "active m (series (rows d) m)")
    case False
    show ?thesis
    proof (cases e)
      case None
      with long False show ?thesis by (simp add: anomalyEntry_def)
    next
      case (Some st)
      with long False show ?thesis
        by (simp add: anomalyEntry_def quietFor_cleared cleared_cleared)
    qed
  next
    case True
    let ?st = "seen (nowMs inp) (entryOr e)"
    note ae = anomalyEntry_active[OF long True]
    show ?thesis
    proof (cases "isSnoozed ?st (nowMs inp) (modalSnoozeMs inp)")
      case sn: True
      then have 1: "anomalyEntry inp d m e = Some ?st" by (simp add: ae)
      show ?thesis unfolding 1 using sn by (simp add: ae entryOr_def seen_seen isSnoozed_seen)
    next
      case ns: False
      show ?thesis
      proof (cases "anomalyStage inp ?st > lastFiredStage ?st")
        case up: True
        with ns have 1: "anomalyEntry inp d m e = Some (?st\<lparr>lastFiredStage := anomalyStage inp ?st\<rparr>)"
          by (simp add: ae)
        show ?thesis unfolding 1 using ns
          by (simp add: ae entryOr_def seen_stage seen_seen isSnoozed_stage isSnoozed_seen
              anomalyStage_stage anomalyStage_seen)
      next
        case no: False
        with ns have 1: "anomalyEntry inp d m e = Some ?st" by (simp add: ae)
        show ?thesis unfolding 1 using ns no
          by (simp add: ae entryOr_def seen_seen isSnoozed_seen anomalyStage_seen)
      qed
    qed
  qed
qed

lemma anomalyCands_idem: "anomalyCands inp L d m (anomalyEntry inp d m e) = anomalyCands inp L d m e"
proof (cases "metricActive d m")
  case False
  then show ?thesis by (simp add: anomalyCands_def)
next
  case True
  then have long: "\<not> length (series (rows d) m) < 3" and act: "active m (series (rows d) m)"
    by (simp_all add: metricActive_def)
  let ?st = "seen (nowMs inp) (entryOr e)"
  have "anomalyEntry inp d m e = Some ?st \<or>
        anomalyEntry inp d m e = Some (?st\<lparr>lastFiredStage := anomalyStage inp ?st\<rparr>)"
    by (simp add: anomalyEntry_active[OF long act] Let_def)
  then show ?thesis
    by (auto simp: anomalyCands_def entryOr_def seen_seen seen_stage isSnoozed_stage
        anomalyShown_stage_upd)
qed

lemma devStore_idem: "devStore inp d (devStore inp d E) k = devStore inp d E k"
proof (cases "owns d k")
  case False
  then show ?thesis by (simp add: devStore_not_owned)
next
  case True
  then consider "k = offlineKey d" | m where "k = anomalyKey d m" by (auto simp: owns_iff)
  then show ?thesis
  proof cases
    case 1
    then show ?thesis by (simp add: devStore_offline offlineEntry_idem)
  next
    case 2
    then show ?thesis by (simp add: devStore_anomaly anomalyEntry_idem)
  qed
qed

lemma devCands_idem: "devCands inp L d (devStore inp d E) = devCands inp L d E"
  by (simp add: devCands_def devStore_offline devStore_anomaly offlineCands_idem anomalyCands_idem)

lemma storeAfter_idem:
  assumes "distinct (map deviceId ds)"
  shows "storeAfter inp (storeAfter inp E ds) ds k = storeAfter inp E ds k"
proof (cases "\<exists>d\<in>set ds. owns d k")
  case False
  then have "\<And>d. d \<in> set ds \<Longrightarrow> \<not> owns d k" by blast
  then show ?thesis by (simp add: storeAfter_unowned)
next
  case True
  then obtain d where d: "d \<in> set ds" "owns d k" by blast
  have 1: "storeAfter inp E ds k = devStore inp d E k" by (rule storeAfter_owned[OF assms d])
  have "storeAfter inp (storeAfter inp E ds) ds k = devStore inp d (storeAfter inp E ds) k"
    by (rule storeAfter_owned[OF assms d])
  also have "\<dots> = devStore inp d (devStore inp d E) k" using 1 by (rule devStore_cong)
  also have "\<dots> = devStore inp d E k" by (rule devStore_idem)
  finally show ?thesis using 1 by simp
qed

lemma candsFrom_idem:
  assumes "distinct (map deviceId ds)"
  shows "candsFrom inp L (storeAfter inp E ds) ds = candsFrom inp L E ds"
proof -
  have "devCands inp L d (storeAfter inp E ds) = devCands inp L d E" if "d \<in> set ds" for d
  proof -
    have "devCands inp L d (storeAfter inp E ds) = devCands inp L d (devStore inp d E)"
      by (rule devCands_cong) (rule storeAfter_owned[OF assms that])
    then show ?thesis by (simp add: devCands_idem)
  qed
  then have meq: "map (\<lambda>d. devCands inp L d (storeAfter inp E ds)) ds = map (\<lambda>d. devCands inp L d E) ds"
    by simp
  show ?thesis by (simp only: candsFrom_distinct[OF assms] meq)
qed

text \<open>
  Claim C9 as amended. For a snapshot whose device ids are pairwise distinct and a call
  without \<open>ackEventKey\<close>, calling \<open>evaluateGlobal\<close> again with the same argument on the
  event map the first call left returns the same result, and leaves the event map as it
  is, whatever the event map before the first call.
\<close>

theorem evaluateGlobal_idempotent:
  assumes "distinct (map deviceId (devices inp))" "ackEventKey inp = None"
  shows "fst (evaluateGlobal inp (snd (evaluateGlobal inp E))) = fst (evaluateGlobal inp E) \<and>
         snd (evaluateGlobal inp (snd (evaluateGlobal inp E))) = snd (evaluateGlobal inp E)"
proof -
  have c: "snd (collect inp (snd (evaluateGlobal inp E))) = snd (collect inp E)"
    by (simp add: collect_cands evaluateGlobal_store applyAck_None[OF assms(2)] candsFrom_idem[OF assms(1)])
  have s: "snd (evaluateGlobal inp (snd (evaluateGlobal inp E))) = snd (evaluateGlobal inp E)"
    by (rule ext) (simp add: evaluateGlobal_store applyAck_None[OF assms(2)] storeAfter_idem[OF assms(1)])
  from c s show ?thesis by (simp add: evaluateGlobal_fst)
qed

theorem evaluateGlobal_idempotent_witness:
  "distinct (map deviceId (devices (dashboardInput [devB, mkDevice ''A'' [] None] 25000 None))) \<and>
   ackEventKey (dashboardInput [devB, mkDevice ''A'' [] None] 25000 None) = None \<and>
   fst (evaluateGlobal (dashboardInput [devB, mkDevice ''A'' [] None] 25000 None)
     (snd (evaluateGlobal (dashboardInput [devB, mkDevice ''A'' [] None] 25000 None) Map.empty))) =
   \<lparr>toast = None,
    modal = Some \<lparr>level = ''modal'', text = TOAST_SPIKE ''en'' Temperature ''B'' 4 11000 21000,
                  eventKey = ''B:Temperature:anomaly''\<rparr>,
    lang = ''en''\<rparr>"
proof -
  let ?inp = "dashboardInput [devB, mkDevice ''A'' [] None] 25000 None"
  have d: "distinct (map deviceId (devices ?inp))" and a: "ackEventKey ?inp = None"
    by (simp_all add: dashboardInput_def devB_def mkDevice_def)
  have "fst (evaluateGlobal ?inp Map.empty) =
   \<lparr>toast = None,
    modal = Some \<lparr>level = ''modal'', text = TOAST_SPIKE ''en'' Temperature ''B'' 4 11000 21000,
                  eventKey = ''B:Temperature:anomaly''\<rparr>,
    lang = ''en''\<rparr>"
    by (simp add: run_defs anomaly_defs fixture_defs)
  with evaluateGlobal_idempotent[OF d a, of Map.empty] d a show ?thesis by simp
qed

lemma dup_cycle_100:
  "snd (evaluateGlobal (dashboardInput [mkDevice ''A'' [] None] 100 None) Map.empty) =
     [''A:offline'' \<mapsto> stB (Some 100) (Some 100) 0 None]"
  by (simp add: run_defs stB_def fun_eq_iff)

lemma dup_cycle_200:
  "snd (evaluateGlobal (dashboardInput [mkDevice ''A'' [] None, mkDevice ''B'' [] None] 200 None)
     [''A:offline'' \<mapsto> stB (Some 100) (Some 100) 0 None]) =
     [''A:offline'' \<mapsto> stB (Some 100) (Some 200) 0 None,
      ''B:offline'' \<mapsto> stB (Some 200) (Some 200) 0 None]"
  by (simp add: run_defs stB_def fun_eq_iff)


lemma dup_call_first:
  "evaluateGlobal
     (dashboardInput [mkDevice ''A'' [] None, mkDevice ''A'' [] (Some 900), mkDevice ''B'' [] None] 1000 None)
     [''A:offline'' \<mapsto> stB (Some 100) (Some 200) 0 None,
      ''B:offline'' \<mapsto> stB (Some 200) (Some 200) 0 None] =
   (\<lparr>toast = None,
     modal = Some \<lparr>level = ''modal'', text = OFFLINE_ALERT ''en'' ''B'' 5 0, eventKey = ''B:offline''\<rparr>,
     lang = ''en''\<rparr>,
    [''A:offline'' \<mapsto> stB None None 0 None,
     ''B:offline'' \<mapsto> stB (Some 200) (Some 1000) 0 None])"
  by (simp add: run_defs stB_def fun_eq_iff)

lemma dup_call_second:
  "fst (evaluateGlobal
     (dashboardInput [mkDevice ''A'' [] None, mkDevice ''A'' [] (Some 900), mkDevice ''B'' [] None] 1000 None)
     [''A:offline'' \<mapsto> stB None None 0 None,
      ''B:offline'' \<mapsto> stB (Some 200) (Some 1000) 0 None]) =
   \<lparr>toast = None,
    modal = Some \<lparr>level = ''modal'', text = OFFLINE_ALERT ''en'' ''A'' 5 0, eventKey = ''A:offline''\<rparr>,
    lang = ''en''\<rparr>"
  by (simp add: run_defs stB_def)

text \<open>
  Claim C9 fails as stated when the snapshot lists one device id twice with contradicting
  data. Device A is listed as never heard and then as heard 100 ms ago; B is offline. In
  the first call A's event still has its old \<open>firstSeenMs\<close> 100 when A's candidate is
  pushed, and is then cleared by A's second snapshot; in the second call A's event starts
  anew at 1000. The top candidate is B's in the first call and A's in the second.
\<close>

theorem duplicate_device_counterexample:
  "ackEventKey (dashboardInput [mkDevice ''A'' [] None, mkDevice ''A'' [] (Some 900), mkDevice ''B'' [] None] 1000 None)
     = None \<and>
   map_option eventKey (modal (fst (evaluateGlobal
     (dashboardInput [mkDevice ''A'' [] None, mkDevice ''A'' [] (Some 900), mkDevice ''B'' [] None] 1000 None)
     (cycles [dashboardInput [mkDevice ''A'' [] None] 100 None,
              dashboardInput [mkDevice ''A'' [] None, mkDevice ''B'' [] None] 200 None] Map.empty))))
     = Some ''B:offline'' \<and>
   map_option eventKey (modal (fst (evaluateGlobal
     (dashboardInput [mkDevice ''A'' [] None, mkDevice ''A'' [] (Some 900), mkDevice ''B'' [] None] 1000 None)
     (snd (evaluateGlobal
       (dashboardInput [mkDevice ''A'' [] None, mkDevice ''A'' [] (Some 900), mkDevice ''B'' [] None] 1000 None)
       (cycles [dashboardInput [mkDevice ''A'' [] None] 100 None,
                dashboardInput [mkDevice ''A'' [] None, mkDevice ''B'' [] None] 200 None] Map.empty))))))
     = Some ''A:offline''"
proof -
  have c: "cycles [dashboardInput [mkDevice ''A'' [] None] 100 None,
              dashboardInput [mkDevice ''A'' [] None, mkDevice ''B'' [] None] 200 None] Map.empty =
     [''A:offline'' \<mapsto> stB (Some 100) (Some 200) 0 None,
      ''B:offline'' \<mapsto> stB (Some 200) (Some 200) 0 None]"
    by (simp only: cycles.simps dup_cycle_100 dup_cycle_200)
  show ?thesis
    unfolding c dup_call_first snd_conv fst_conv dup_call_second
    by (simp add: dashboardInput_def)
qed

section \<open>The newer anomaly detector reads the series through its deltas\<close>

lemma sameDeltas_metric:
  assumes "sameDeltas d d'"
  shows "(length (series (rows d) m) < 3 \<longleftrightarrow> length (series (rows d') m) < 3)"
    "stepOf (series (rows d) m) = stepOf (series (rows d') m)"
    "d5Of (series (rows d) m) = d5Of (series (rows d') m)"
    "d10Of (series (rows d) m) = d10Of (series (rows d') m)"
  using assms by (cases m; simp add: sameDeltas_def)+

lemma sameDeltas_ids:
  assumes "sameDeltas d d'"
  shows "deviceId d = deviceId d'" "deviceName d = deviceName d'" "lastDataMs d = lastDataMs d'"
    "offlineKey d = offlineKey d'" "anomalyKey d m = anomalyKey d' m" "displayName d = displayName d'"
  using assms by (simp_all add: sameDeltas_def offlineKey_def anomalyKey_def displayName_def)

lemma sameDeltas_active:
  assumes "sameDeltas d d'"
  shows "active m (series (rows d) m) = active m (series (rows d') m)"
    "dUse m (series (rows d) m) = dUse m (series (rows d') m)"
  by (simp_all add: active_def dUse_def sameDeltas_metric[OF assms] split: option.splits)

lemma sameDeltas_entry:
  assumes "sameDeltas d d'"
  shows "anomalyEntry inp d m e = anomalyEntry inp d' m e"
  by (simp add: anomalyEntry_def sameDeltas_metric(1)[OF assms] sameDeltas_active(1)[OF assms])

lemma sameDeltas_cands:
  assumes "sameDeltas d d'"
  shows "anomalyCands inp L d m e = anomalyCands inp L d' m e"
proof -
  have 1: "metricActive d m = metricActive d' m"
    using sameDeltas_metric(1)[OF assms, of m] sameDeltas_active(1)[OF assms, of m]
    by (auto simp: metricActive_def)
  have 2: "anomalyShown inp L d m st = anomalyShown inp L d' m st" for st
    by (simp add: anomalyShown_def sameDeltas_active(2)[OF assms] sameDeltas_ids[OF assms])
  show ?thesis by (simp add: anomalyCands_def 1 2)
qed

lemma sameDeltas_offline:
  assumes "sameDeltas d d'"
  shows "offlineEntry inp d e = offlineEntry inp d' e" "offlineCands inp L d e = offlineCands inp L d' e"
  by (simp_all add: offlineEntry_def offlineCands_def offlineActive_def offlineShown_def
      offlineCandidate_def sameDeltas_ids[OF assms])

lemma sameDeltas_evalDevice:
  assumes "sameDeltas d d'"
  shows "evalDevice inp L acc d = evalDevice inp L acc d'"
proof -
  have s: "devStore inp d E = devStore inp d' E" for E
    unfolding devStore_def
    by (simp only: sameDeltas_ids[OF assms] sameDeltas_entry[OF assms] sameDeltas_offline[OF assms])
  have c: "devCands inp L d E = devCands inp L d' E" for E
    unfolding devCands_def
    by (simp only: sameDeltas_ids[OF assms] sameDeltas_cands[OF assms] sameDeltas_offline[OF assms])
  show ?thesis by (cases acc) (simp add: evalDevice_view s c)
qed

lemma sameDeltas_foldl:
  "list_all2 sameDeltas ds ds' \<Longrightarrow>
     foldl (evalDevice inp L) acc ds = foldl (evalDevice inp L) acc ds'"
proof (induction ds ds' arbitrary: acc rule: list_all2_induct)
  case Nil
  then show ?case by simp
next
  case (Cons d ds d' ds')
  then show ?case by (simp add: sameDeltas_evalDevice)
qed

lemma evalMetric_devices: "evalMetric (inp\<lparr>devices := ds'\<rparr>) = evalMetric inp"
  by (intro ext) (simp add: evalMetric_def Let_def cong: option.case_cong if_cong)

lemma evalDevice_devices: "evalDevice (inp\<lparr>devices := ds'\<rparr>) = evalDevice inp"
  by (intro ext) (simp add: evalDevice_def evalMetric_devices Let_def cong: if_cong)

lemma applyAck_devices: "applyAck (inp\<lparr>devices := ds'\<rparr>) = applyAck inp"
  by (intro ext) (simp add: applyAck_def split: option.splits)

lemma evaluateGlobal_sameDeltas:
  assumes "list_all2 sameDeltas (devices inp) ds'"
  shows "evaluateGlobal (inp\<lparr>devices := ds'\<rparr>) E = evaluateGlobal inp E"
proof -
  have "collect (inp\<lparr>devices := ds'\<rparr>) E = collect inp E"
    by (simp add: collect_def collectOver_def evalDevice_devices applyAck_devices
        sameDeltas_foldl[OF assms])
  then show ?thesis by (simp add: evaluateGlobal_def)
qed

lemma devCands_origin:
  assumes "c \<in> set (devCands inp L d E')"
  shows "(eventKey c = offlineKey d \<and> offlineActive inp d) \<or>
         (\<exists>m. eventKey c = anomalyKey d m \<and> metricActive d m)"
proof -
  from assms consider "c \<in> set (offlineCands inp L d (E' (offlineKey d)))"
    | m where "c \<in> set (anomalyCands inp L d m (E' (anomalyKey d m)))"
    by (auto simp: devCands_def split: if_splits)
  then show ?thesis
  proof cases
    case 1
    then show ?thesis using offlineCands_key by blast
  next
    case 2
    then show ?thesis using anomalyCands_key by blast
  qed
qed

lemma candsFrom_origin:
  "c \<in> set (candsFrom inp L E ds) \<Longrightarrow> \<exists>d\<in>set ds. \<exists>E'. c \<in> set (devCands inp L d E')"
proof (induction ds arbitrary: E)
  case Nil
  then show ?case by simp
next
  case (Cons d ds)
  from Cons.prems consider "c \<in> set (devCands inp L d E)"
    | "c \<in> set (candsFrom inp L (devStore inp d E) ds)"
    by auto
  then show ?case
  proof cases
    case 1
    then show ?thesis by auto
  next
    case 2
    from Cons.IH[OF this] show ?thesis by auto
  qed
qed

text \<open>
  In the newer copy the candidates come from the offline test and from the thresholds on
  the step and window deltas only: every candidate is the offline candidate of a device of
  the snapshot that is offline, or the anomaly candidate of a device and metric whose
  series has three points and reaches a threshold (\<open>active\<close>). And the whole call, result
  and event map, is the same for two snapshots whose devices agree in id, name, last-data
  time and, for each metric, in the length test and the three deltas, whatever else their
  rows hold; \<open>zAnomaly\<close>, \<open>mean\<close> and \<open>std\<close> do not occur in the newer
  \<open>evaluateGlobal\<close>.
\<close>

lemma global_anomaly_by_thresholds:
  "(\<forall>c\<in>set (snd (collect inp E)).
      (\<exists>d\<in>set (devices inp). eventKey c = offlineKey d \<and> offlineActive inp d) \<or>
      (\<exists>d\<in>set (devices inp). \<exists>m. eventKey c = anomalyKey d m \<and>
          3 \<le> length (series (rows d) m) \<and> active m (series (rows d) m))) \<and>
   (\<forall>ds'. list_all2 sameDeltas (devices inp) ds' \<longrightarrow>
      evaluateGlobal (inp\<lparr>devices := ds'\<rparr>) E = evaluateGlobal inp E)"
proof (intro conjI ballI allI impI)
  fix c assume "c \<in> set (snd (collect inp E))"
  then have "c \<in> set (candsFrom inp (detectLang (langMode inp) (navigatorJa inp))
      (applyAck inp E) (devices inp))"
    by (simp add: collect_cands)
  from candsFrom_origin[OF this] obtain d E' where d: "d \<in> set (devices inp)"
    and c: "c \<in> set (devCands inp (detectLang (langMode inp) (navigatorJa inp)) d E')"
    by blast
  from devCands_origin[OF c] d
  show "(\<exists>d\<in>set (devices inp). eventKey c = offlineKey d \<and> offlineActive inp d) \<or>
      (\<exists>d\<in>set (devices inp). \<exists>m. eventKey c = anomalyKey d m \<and>
          3 \<le> length (series (rows d) m) \<and> active m (series (rows d) m))"
    unfolding metricActive_def by blast
next
  fix ds' assume "list_all2 sameDeltas (devices inp) ds'"
  then show "evaluateGlobal (inp\<lparr>devices := ds'\<rparr>) E = evaluateGlobal inp E"
    by (rule evaluateGlobal_sameDeltas)
qed

lemma series_flatRows:
  "series flatRows Temperature = flatPts"
  "series flatRows Humidity = []" "series flatRows Pressure = []" "series flatRows Light = []"
  by (simp_all add: flatRows_def flatPts_def mkRow_def truthy_def)

lemma series_shortRows:
  "series shortRows Temperature = shortPts"
  "series shortRows Humidity = []" "series shortRows Pressure = []" "series shortRows Light = []"
  by (simp_all add: shortRows_def shortPts_def mkRow_def truthy_def)

lemma length_flatPts: "length flatPts = 17" "length shortPts = 11"
  by (simp_all add: flatPts_def shortPts_def)

lemma deltas_flatPts:
  "stepOf flatPts = Some \<lparr>delta_d = 2, fromMs = 151000, toMs = 161000, first_v = 20, last_v = 22\<rparr>"
  "d5Of flatPts = Some \<lparr>delta_d = 2, fromMs = 1000, toMs = 161000, first_v = 20, last_v = 22\<rparr>"
  "d10Of flatPts = Some \<lparr>delta_d = 2, fromMs = 1000, toMs = 161000, first_v = 20, last_v = 22\<rparr>"
  by (simp_all add: flatPts_def stepOf_def d5Of_def d10Of_def
      lastStepDelta_def deltaFromWindow_def deltaOverWindow_def WIN_5M_def WIN_10M_def Let_def)

lemma deltas_shortPts:
  "stepOf shortPts = stepOf flatPts" "d5Of shortPts = d5Of flatPts" "d10Of shortPts = d10Of flatPts"
  unfolding deltas_flatPts
  by (simp_all add: shortPts_def stepOf_def d5Of_def d10Of_def
      lastStepDelta_def deltaFromWindow_def deltaOverWindow_def WIN_5M_def WIN_10M_def Let_def)

lemma inactive_flatPts: "\<not> active Temperature flatPts"
  by (simp add: active_def hit_def deltas_flatPts)

lemma zAnomaly_flatPts: "zAnomaly (lastN flatPts 30) (28 / 10)"
proof -
  have s: "sqrt (64 / 289) = 8 / 17"
    by (rule real_sqrt_unique) (simp_all add: power2_eq_square)
  show ?thesis
    by (simp add: flatPts_def zAnomaly_def lastN_def mean_def std_def Let_def s)
qed

lemma zAnomaly_shortPts: "\<not> zAnomaly (lastN shortPts 30) (28 / 10)"
  by (simp add: shortPts_def zAnomaly_def lastN_def Let_def)

lemma sameDeltas_zDev: "sameDeltas zDev qDev"
  by (simp add: sameDeltas_def zDev_def qDev_def mkDevice_def deltas_shortPts length_flatPts
      series_flatRows series_shortRows)

lemma quiet_zDev:
  "modal (fst (evaluateGlobal (dashboardInput [zDev] 165000 None) Map.empty)) = None"
  by (simp add: run_defs zDev_def series_flatRows length_flatPts inactive_flatPts)

text \<open>
  The dispersion check flags the seventeen-point history and not the eleven-point one; the
  newer \<open>evaluateGlobal\<close> returns the same for both, and no modal.
\<close>

lemma global_anomaly_by_thresholds_example:
  "list_all2 sameDeltas (devices (dashboardInput [zDev] 165000 None)) [qDev] \<and>
   zAnomaly (lastN (series (rows zDev) Temperature) 30) (28 / 10) \<and>
   \<not> zAnomaly (lastN (series (rows qDev) Temperature) 30) (28 / 10) \<and>
   evaluateGlobal (dashboardInput [qDev] 165000 None) Map.empty =
     evaluateGlobal (dashboardInput [zDev] 165000 None) Map.empty \<and>
   modal (fst (evaluateGlobal (dashboardInput [zDev] 165000 None) Map.empty)) = None"
proof -
  have d: "list_all2 sameDeltas (devices (dashboardInput [zDev] 165000 None)) [qDev]"
    by (simp add: dashboardInput_def sameDeltas_zDev)
  have "evaluateGlobal ((dashboardInput [zDev] 165000 None)\<lparr>devices := [qDev]\<rparr>) Map.empty =
     evaluateGlobal (dashboardInput [zDev] 165000 None) Map.empty"
    using global_anomaly_by_thresholds[of "dashboardInput [zDev] 165000 None" Map.empty] d by blast
  then have e: "evaluateGlobal (dashboardInput [qDev] 165000 None) Map.empty =
     evaluateGlobal (dashboardInput [zDev] 165000 None) Map.empty"
    by (simp add: dashboardInput_def)
  have z: "zAnomaly (lastN (series (rows zDev) Temperature) 30) (28 / 10)"
    "\<not> zAnomaly (lastN (series (rows qDev) Temperature) 30) (28 / 10)"
    using zAnomaly_flatPts zAnomaly_shortPts
    by (simp_all add: zDev_def qDev_def mkDevice_def series_flatRows series_shortRows)
  from d e z quiet_zDev show ?thesis by simp
qed

section \<open>The dispersion check in the older copy\<close>

lemma spikeCheck_flatPts:
  "spikeCheck flatPts 1 (spike1m (TH_part000 Temperature)) = None"
  "spikeCheck flatPts 10 (spike10m (TH_part000 Temperature)) = None"
  by (simp_all add: flatPts_def spikeCheck_def deltaOverWindow_def Let_def)

lemma zAnomaly_flatPts_40: "zAnomaly (lastN flatPts 40) (29 / 10)"
proof -
  have s: "sqrt (64 / 289) = 8 / 17"
    by (rule real_sqrt_unique) (simp_all add: power2_eq_square)
  show ?thesis
    by (simp add: flatPts_def zAnomaly_def lastN_def mean_def std_def Let_def s)
qed

lemma nth_flatPts:
  "flatPts ! 15 = \<lparr>p_ms = 151000, p_v = 20\<rparr>" "flatPts ! 16 = \<lparr>p_ms = 161000, p_v = 22\<rparr>"
  by (simp_all add: flatPts_def)

lemma part000_zDev:
  "fst (evaluateGlobal_part000 (dashboardInput [zDev] 165000 None) Map.empty) =
     \<lparr>toast = Some \<lparr>level = ''warn'', text = TOAST_SPIKE ''en'' Temperature ''Z'' 2 151000 161000,
                    eventKey = ''Z:Temperature:anomaly''\<rparr>,
      modal = None, lang = ''en''\<rparr>"
  using spikeCheck_flatPts
  by (simp add: evaluateGlobal_part000_def evalDevice_part000_def evalMetric_part000_def
      arbitrate_part000_def sortCands_def applyAck_def detectLang_def dashboardInput_def zDev_def
      mkDevice_def series_flatRows length_flatPts zAnomaly_flatPts_40 nth_flatPts
      truthyD_def orDelta_def truthy_def orElse_def offlineKey_def anomalyKey_def displayName_def
      clearEvent_def markSeen_def mutate_def getOrInitEvent_def fresh_event_def seen_def
      isSnoozed_def makeSpikeText_def Let_def)

lemma part001_zDev:
  "fst (evaluateGlobal (dashboardInput [zDev] 165000 None) Map.empty) =
     \<lparr>toast = None, modal = None, lang = ''en''\<rparr>"
  by (simp add: run_defs zDev_def series_flatRows length_flatPts inactive_flatPts)

text \<open>
  Claim C8 says the dispersion check never decides anything in the global engine. In the
  older copy it does. The device Z has seventeen temperature points ten seconds apart,
  sixteen at 20.0 and the last at 22.0, and was last heard four seconds ago. The change
  over one minute and over ten minutes is +2.0, below 2.5 and 4.0, so both \<open>spikeCheck\<close>
  calls return null; \<open>zAnomaly\<close> is true (the last value is four standard deviations from
  the mean). The older \<open>evaluateGlobal\<close> returns a toast for
  \<open>Z:Temperature:anomaly\<close>; the newer one, on the same input, returns nothing.
\<close>

theorem evaluateGlobal_part000_zscore_toast:
  "spikeCheck (series (rows zDev) Temperature) 1 (spike1m (TH_part000 Temperature)) = None \<and>
   spikeCheck (series (rows zDev) Temperature) 10 (spike10m (TH_part000 Temperature)) = None \<and>
   zAnomaly (lastN (series (rows zDev) Temperature) 40) (29 / 10) \<and>
   fst (evaluateGlobal_part000 (dashboardInput [zDev] 165000 None) Map.empty) =
     \<lparr>toast = Some \<lparr>level = ''warn'', text = TOAST_SPIKE ''en'' Temperature ''Z'' 2 151000 161000,
                    eventKey = ''Z:Temperature:anomaly''\<rparr>,
      modal = None, lang = ''en''\<rparr> \<and>
   fst (evaluateGlobal (dashboardInput [zDev] 165000 None) Map.empty) =
     \<lparr>toast = None, modal = None, lang = ''en''\<rparr>"
proof -
  have r: "series (rows zDev) Temperature = flatPts"
    by (simp add: zDev_def mkDevice_def series_flatRows)
  show ?thesis
    unfolding r using spikeCheck_flatPts zAnomaly_flatPts_40 part000_zDev part001_zDev
    by (intro conjI)
qed

end
